theory Spec2Isabelle
  imports Complex_Main
begin

section \<open>Single-precision arithmetic\<close>

text \<open>
  The converters compute \<^verbatim>\<open>roundf(v * 1000000) / 1000000\<close> on C \<^verbatim>\<open>float\<close> operands.
  A \<^verbatim>\<open>float\<close> is an IEEE-754 binary32 value and the operators round to nearest, ties
  to even. A finite value is kept as sign, significand and exponent: \<open>FFinite s m e\<close>
  stands for \<open>(-1)^s * m * 2^e\<close>. The predicate \<open>is_float32\<close> singles out the canonical
  triples, one for every finite bit pattern (zero is \<open>FFinite s 0 (-149)\<close>, so the sign
  of zero is kept).
\<close>

datatype float32 = FFinite bool nat int | FInf bool | FNaN

fun is_float32 :: "float32 \<Rightarrow> bool" where
  "is_float32 (FFinite s m e) =
     (m < 2 ^ 24 \<and> - 149 \<le> e \<and> e \<le> 104 \<and> (2 ^ 23 \<le> m \<or> e = - 149))"
| "is_float32 (FInf s) = True"
| "is_float32 FNaN = True"

fun is_finite :: "float32 \<Rightarrow> bool" where
  "is_finite (FFinite s m e) = True"
| "is_finite (FInf s) = False"
| "is_finite FNaN = False"

fun valof :: "float32 \<Rightarrow> real" where
  "valof (FFinite s m e) = (if s then - 1 else 1) * real m * 2 powi e"
| "valof (FInf s) = 0"
| "valof FNaN = 0"

text \<open>Number of binary digits of a natural number.\<close>

fun bitlen :: "nat \<Rightarrow> nat" where
  "bitlen n = (if n = 0 then 0 else Suc (bitlen (n div 2)))"

declare bitlen.simps [simp del]

text \<open>\<open>floor_log2 a b\<close> is the integer \<open>L\<close> with \<open>2^L \<le> a / b < 2^(L+1)\<close>, for positive \<open>a\<close>, \<open>b\<close>.\<close>

definition floor_log2 :: "nat \<Rightarrow> nat \<Rightarrow> int" where
  "floor_log2 a b =
     (let d = int (bitlen a) - int (bitlen b) in
      if (if 0 \<le> d then b * 2 ^ nat d \<le> a else b \<le> a * 2 ^ nat (- d)) then d else d - 1)"

text \<open>The integer nearest to \<open>a / b\<close>, a tie going to the even neighbour.\<close>

definition rne_div :: "nat \<Rightarrow> nat \<Rightarrow> nat" where
  "rne_div a b =
     (let q = a div b; r = a mod b in
      if 2 * r < b then q
      else if b < 2 * r then q + 1
      else if even q then q else q + 1)"

text \<open>
  Rounding of the exact magnitude \<open>a / b * 2^k\<close> with sign \<open>s\<close> to binary32: the exponent
  is that of the value's binade, not below the subnormal exponent \<open>-149\<close>; the
  significand is rounded once; a carry out of 24 bits renormalises; an exponent above
  \<open>104\<close> overflows to infinity.
\<close>

definition round_to_float32 :: "bool \<Rightarrow> nat \<Rightarrow> nat \<Rightarrow> int \<Rightarrow> float32" where
  "round_to_float32 s a b k =
     (if a = 0 then FFinite s 0 (- 149)
      else
        let e = max (floor_log2 a b + k - 23) (- 149);
            m = (if e \<le> k then rne_div (a * 2 ^ nat (k - e)) b
                 else rne_div a (b * 2 ^ nat (e - k)));
            m' = (if m = 2 ^ 24 then 2 ^ 23 else m);
            e' = (if m = 2 ^ 24 then e + 1 else e)
        in if 104 < e' then FInf s else FFinite s m' e')"

text \<open>The C operators \<^verbatim>\<open>*\<close> and \<^verbatim>\<open>/\<close> on \<^verbatim>\<open>float\<close>.\<close>

fun fmul :: "float32 \<Rightarrow> float32 \<Rightarrow> float32" where
  "fmul FNaN y = FNaN"
| "fmul x FNaN = FNaN"
| "fmul (FInf s) (FInf t) = FInf (s \<noteq> t)"
| "fmul (FInf s) (FFinite t n f) = (if n = 0 then FNaN else FInf (s \<noteq> t))"
| "fmul (FFinite s m e) (FInf t) = (if m = 0 then FNaN else FInf (s \<noteq> t))"
| "fmul (FFinite s m e) (FFinite t n f) = round_to_float32 (s \<noteq> t) (m * n) 1 (e + f)"

fun fdiv :: "float32 \<Rightarrow> float32 \<Rightarrow> float32" where
  "fdiv FNaN y = FNaN"
| "fdiv x FNaN = FNaN"
| "fdiv (FInf s) (FInf t) = FNaN"
| "fdiv (FInf s) (FFinite t n f) = FInf (s \<noteq> t)"
| "fdiv (FFinite s m e) (FInf t) = FFinite (s \<noteq> t) 0 (- 149)"
| "fdiv (FFinite s m e) (FFinite t n f) =
     (if n = 0 then (if m = 0 then FNaN else FInf (s \<noteq> t))
      else round_to_float32 (s \<noteq> t) m n (e - f))"

text \<open>The conversion of an \<^verbatim>\<open>int\<close> operand to \<^verbatim>\<open>float\<close> (the literal \<^verbatim>\<open>1000000\<close>).\<close>

definition float_of_int :: "int \<Rightarrow> float32" where
  "float_of_int i = round_to_float32 (i < 0) (nat \<bar>i\<bar>) 1 0"

text \<open>C99 \<^verbatim>\<open>roundf\<close>: the nearest integer, a tie going away from zero; the sign is kept.\<close>

fun roundf :: "float32 \<Rightarrow> float32" where
  "roundf FNaN = FNaN"
| "roundf (FInf s) = FInf s"
| "roundf (FFinite s m e) =
     (if 0 \<le> e then FFinite s m e
      else
        let d = 2 ^ nat (- e); q = m div d; r = m mod d
        in round_to_float32 s (if d \<le> 2 * r then q + 1 else q) 1 0)"

text \<open>The quantization step of the writers: \<^verbatim>\<open>roundf(v * 1000000) / 1000000\<close>.\<close>

definition quantize :: "float32 \<Rightarrow> float32" where
  "quantize v = fdiv (roundf (fmul v (float_of_int 1000000))) (float_of_int 1000000)"

section \<open>Failures\<close>

text \<open>
  \<open>ExitFailure\<close>: a diagnostic on stderr and \<^verbatim>\<open>exit(EXIT_FAILURE)\<close> (opendir).
  \<open>IOError\<close>: the exception of \<^verbatim>\<open>PARQUET_ASSIGN_OR_THROW\<close> when a file cannot be opened.
  \<open>OutOfRange\<close>: \<^verbatim>\<open>std::out_of_range\<close> thrown by \<^verbatim>\<open>std::string::substr\<close>.
  \<open>NullPointerDereference\<close> and \<open>OutOfBoundsRead\<close>: the code calls a member of a null
  array pointer, or reads element 0 of an empty array; C++ gives these no behaviour.
\<close>

datatype failure =
    ExitFailure string
  | IOError string
  | OutOfRange
  | NullPointerDereference
  | OutOfBoundsRead

section \<open>The source snapshot and its iterator\<close>

text \<open>
  What the converters read of a \<^verbatim>\<open>vtkImageData\<close>: the number of points, the float
  arrays of the point data by name (\<open>None\<close> where \<^verbatim>\<open>GetAbstractArray\<close> followed by
  \<^verbatim>\<open>FastDownCast\<close> yields a null pointer), the integer arrays of the field data, and
  extent, origin and spacing.
\<close>

record vtkImageData =
  NumberOfPoints :: int
  PointData :: "string \<Rightarrow> float32 list option"
  FieldData :: "string \<Rightarrow> int list option"
  Extent :: "int list"
  Origin :: "real list"
  Spacing :: "real list"

text \<open>The conversion of the 64-bit point count to \<^verbatim>\<open>int\<close> keeps the low 32 bits.\<close>

definition to_int32 :: "int \<Rightarrow> int" where
  "to_int32 x = (x + 2 ^ 31) mod 2 ^ 32 - 2 ^ 31"

text \<open>A data member \<^verbatim>\<open>x_\<close> of a C++ class is the record field \<open>m_x\<close>.\<close>

record Iterator =
  m_n :: int
  m_v02 :: "float32 list"
  m_v03 :: "float32 list"
  m_i :: int

definition GET_POINTER :: "(string \<Rightarrow> float32 list option) \<Rightarrow> string \<Rightarrow> failure + float32 list" where
  "GET_POINTER pointData attributename =
     (case pointData attributename of
        None \<Rightarrow> Inl NullPointerDereference
      | Some a \<Rightarrow> Inr a)"

definition Iterator_init :: "vtkImageData \<Rightarrow> failure + Iterator" where
  "Iterator_init img =
     (case GET_POINTER (PointData img) ''v02'' of
        Inl e \<Rightarrow> Inl e
      | Inr a \<Rightarrow>
          (case GET_POINTER (PointData img) ''v03'' of
             Inl e \<Rightarrow> Inl e
           | Inr b \<Rightarrow>
               Inr \<lparr>m_n = to_int32 (NumberOfPoints img), m_v02 = a, m_v03 = b, m_i = 0\<rparr>))"

definition SeekToFirst :: "'a Iterator_scheme \<Rightarrow> 'a Iterator_scheme" where
  "SeekToFirst it = it\<lparr>m_i := 0\<rparr>"

definition Valid :: "'a Iterator_scheme \<Rightarrow> bool" where
  "Valid it = (0 \<le> m_i it \<and> m_i it < m_n it)"

definition Next :: "'a Iterator_scheme \<Rightarrow> 'a Iterator_scheme" where
  "Next it = it\<lparr>m_i := m_i it + 1\<rparr>"

definition v02 :: "'a Iterator_scheme \<Rightarrow> float32" where
  "v02 it = m_v02 it ! nat (m_i it)"

definition v03 :: "'a Iterator_scheme \<Rightarrow> float32" where
  "v03 it = m_v03 it ! nat (m_i it)"

section \<open>The columnar sink\<close>

text \<open>
  A \<^verbatim>\<open>parquet::StreamWriter\<close> is modelled by what has been streamed into it: the rows, each
  the list of its cells in column order, and the row-group ends.
\<close>

datatype cell = Int32 int | Float float32

datatype event = Row "cell list" | EndRowGroup

type_synonym output_file = "string \<times> event list"

fun is_row :: "event \<Rightarrow> bool" where
  "is_row (Row cs) = True"
| "is_row EndRowGroup = False"

definition row_count :: "event list \<Rightarrow> nat" where
  "row_count evs = length (filter is_row evs)"

text \<open>The value of the \<open>rowid\<close> column of a row of the four-column schema.\<close>

fun rowid_of :: "event \<Rightarrow> int option" where
  "rowid_of (Row (t # Int32 r # cs)) = Some r"
| "rowid_of ev = None"

section \<open>Strings, directory entries and the ordered map\<close>

definition StringEndWith :: "string \<Rightarrow> string \<Rightarrow> bool" where
  "StringEndWith str suffix =
     (if length str < length suffix then False
      else drop (length str - length suffix) str = suffix)"

text \<open>Subtraction on \<^verbatim>\<open>size_t\<close> wraps around modulo \<open>2^64\<close>.\<close>

definition size_t_sub :: "nat \<Rightarrow> nat \<Rightarrow> nat" where
  "size_t_sub a b = (a + 2 ^ 64 - b mod 2 ^ 64) mod 2 ^ 64"

text \<open>\<^verbatim>\<open>std::string::substr(pos, count)\<close> throws when \<open>pos\<close> is beyond the end.\<close>

definition substr :: "string \<Rightarrow> nat \<Rightarrow> nat \<Rightarrow> failure + string" where
  "substr s pos count = (if length s < pos then Inl OutOfRange else Inr (take count (drop pos s)))"

definition isspace :: "char \<Rightarrow> bool" where
  "isspace c = ((of_char c :: nat) = 32 \<or> (9 \<le> (of_char c :: nat) \<and> (of_char c :: nat) \<le> 13))"

definition isdigit :: "char \<Rightarrow> bool" where
  "isdigit c = (48 \<le> (of_char c :: nat) \<and> (of_char c :: nat) \<le> 57)"

fun atoi_digits :: "int \<Rightarrow> string \<Rightarrow> int" where
  "atoi_digits acc [] = acc"
| "atoi_digits acc (c # cs) =
     (if isdigit c then atoi_digits (10 * acc + (of_char c - 48)) cs else acc)"

text \<open>
  \<^verbatim>\<open>atoi\<close>: leading white space, an optional sign, then the digits up to the first other
  character. The callers pass at most five characters, so the value fits an \<^verbatim>\<open>int\<close>.
\<close>

fun atoi :: "string \<Rightarrow> int" where
  "atoi [] = 0"
| "atoi (c # cs) =
     (if isspace c then atoi cs
      else if c = CHR ''-'' then - atoi_digits 0 cs
      else if c = CHR ''+'' then atoi_digits 0 cs
      else atoi_digits 0 (c # cs))"

definition digit_char :: "nat \<Rightarrow> char" where
  "digit_char d = ''0123456789'' ! d"

fun to_string_nat :: "nat \<Rightarrow> string" where
  "to_string_nat n =
     (if n < 10 then [digit_char n] else to_string_nat (n div 10) @ [digit_char (n mod 10)])"

declare to_string_nat.simps [simp del]

text \<open>\<^verbatim>\<open>std::to_string(int)\<close>.\<close>

definition to_string :: "int \<Rightarrow> string" where
  "to_string i = (if i < 0 then CHR ''-'' # to_string_nat (nat (- i)) else to_string_nat (nat i))"

datatype d_type_t = DT_REG | DT_LNK | DT_DIR | DT_UNKNOWN

record dirent =
  d_type :: d_type_t
  d_name :: string

text \<open>
  A \<^verbatim>\<open>std::map<int, std::string>\<close> is kept as the list of its entries in iteration
  order, that is by ascending key; \<open>map_assign k v\<close> is \<^verbatim>\<open>m[k] = v\<close>.
\<close>

fun map_assign :: "int \<Rightarrow> 'v \<Rightarrow> (int \<times> 'v) list \<Rightarrow> (int \<times> 'v) list" where
  "map_assign k v [] = [(k, v)]"
| "map_assign k v ((k', v') # m) =
     (if k < k' then (k, v) # (k', v') # m
      else if k = k' then (k, v) # m
      else (k', v') # map_assign k v m)"

section \<open>The writers\<close>

text \<open>
  The three writer classes of the four-column schema differ in their members: the repack
  tool's has the stream only, the splitting converter's adds \<^verbatim>\<open>rowid_\<close>, the
  single-output converter's adds \<^verbatim>\<open>pending_rgflush_\<close>. The \<^verbatim>\<open>int32_t\<close> counter
  \<^verbatim>\<open>rowid_\<close> is an unbounded integer here: it counts the rows read from one iterator,
  whose length is an \<^verbatim>\<open>int\<close>, so it never leaves the range of \<^verbatim>\<open>int32_t\<close>.
\<close>

record ParquetWriter_repack =
  m_writer :: "event list"

record ParquetWriter_v2b = ParquetWriter_repack +
  m_rowid :: int

record ParquetWriter_v2a = ParquetWriter_v2b +
  m_pending_rgflush :: bool

record ParquetWriterOptions =
  rowid :: int

text \<open>\<^verbatim>\<open>Finish\<close> deletes the stream, which closes the file: what was streamed is the file.\<close>

definition Finish :: "'a ParquetWriter_repack_scheme \<Rightarrow> event list" where
  "Finish w = m_writer w"

subsection \<open>vti2pqtv2a: one output, one row group per timestep\<close>

definition ParquetWriter_v2a_init :: "ParquetWriter_v2a" where
  "ParquetWriter_v2a_init = \<lparr>m_writer = [], m_rowid = 0, m_pending_rgflush = False\<rparr>"

definition Append_v2a :: "ParquetWriter_v2a \<Rightarrow> int \<Rightarrow> float32 \<Rightarrow> float32 \<Rightarrow> ParquetWriter_v2a" where
  "Append_v2a w timestep x02 x03 =
     (let w1 = (if m_pending_rgflush w
                then w\<lparr>m_writer := m_writer w @ [EndRowGroup], m_pending_rgflush := False\<rparr>
                else w)
      in w1\<lparr>m_writer := m_writer w1 @
                [Row [Int32 timestep, Int32 (m_rowid w1), Float (quantize x02), Float (quantize x03)]],
             m_rowid := m_rowid w1 + 1\<rparr>)"

definition FlushRowGroup :: "ParquetWriter_v2a \<Rightarrow> ParquetWriter_v2a" where
  "FlushRowGroup w = w\<lparr>m_pending_rgflush := True, m_rowid := 0\<rparr>"

function Rewrite_loop_v2a :: "int \<Rightarrow> ParquetWriter_v2a \<Rightarrow> Iterator \<Rightarrow> ParquetWriter_v2a" where
  "Rewrite_loop_v2a timestep w it =
     (if Valid it then Rewrite_loop_v2a timestep (Append_v2a w timestep (v02 it) (v03 it)) (Next it)
      else w)"
  by pat_completeness auto
termination
  by (relation "measure (\<lambda>(t, w, it). nat (m_n it - m_i it))") (auto simp: Valid_def Next_def)

declare Rewrite_loop_v2a.simps [simp del]

text \<open>\<open>reader\<close> is the \<^verbatim>\<open>vtkXMLImageDataReader\<close>: the snapshot a path holds.\<close>

definition Rewrite_v2a ::
  "(string \<Rightarrow> vtkImageData) \<Rightarrow> string \<Rightarrow> int \<Rightarrow> ParquetWriter_v2a \<Rightarrow> failure + ParquetWriter_v2a" where
  "Rewrite_v2a reader from timestep writer =
     (case Iterator_init (reader from) of
        Inl e \<Rightarrow> Inl e
      | Inr it \<Rightarrow> Inr (FlushRowGroup (Rewrite_loop_v2a timestep writer (SeekToFirst it))))"

text \<open>
  The directory scan of \<^verbatim>\<open>ProcessDir\<close>: the state is the output path \<^verbatim>\<open>tmp2\<close> and the
  map \<^verbatim>\<open>work_items\<close>.
\<close>

fun scan_v2a ::
  "string \<Rightarrow> string \<Rightarrow> dirent list \<Rightarrow> string \<times> (int \<times> string) list \<Rightarrow>
   failure + string \<times> (int \<times> string) list" where
  "scan_v2a indir outdir [] st = Inr st"
| "scan_v2a indir outdir (entry # rest) (tmp2, work_items) =
     (if d_type entry = DT_REG \<and> StringEndWith (d_name entry) ''.vti'' then
        (let f = d_name entry;
             tmp1 = indir @ ''/'' @ f;
             tmp2' = (if length tmp2 = length outdir
                      then tmp2 @ ''/'' @ take (size_t_sub (length f) 10) f @ ''.parquet''
                      else tmp2)
         in case substr f (size_t_sub (length f) 9) 5 of
              Inl e \<Rightarrow> Inl e
            | Inr s \<Rightarrow> scan_v2a indir outdir rest (tmp2', map_assign (atoi s) tmp1 work_items))
      else scan_v2a indir outdir rest (tmp2, work_items))"

fun Rewrite_all_v2a ::
  "(string \<Rightarrow> vtkImageData) \<Rightarrow> (int \<times> string) list \<Rightarrow> ParquetWriter_v2a \<Rightarrow> failure + ParquetWriter_v2a" where
  "Rewrite_all_v2a reader [] writer = Inr writer"
| "Rewrite_all_v2a reader (kv # rest) writer =
     (case Rewrite_v2a reader (snd kv) (fst kv) writer of
        Inl e \<Rightarrow> Inl e
      | Inr writer' \<Rightarrow> Rewrite_all_v2a reader rest writer')"

text \<open>
  \<open>dir\<close> is what \<^verbatim>\<open>opendir\<close> and \<^verbatim>\<open>readdir\<close> yield: \<open>None\<close> when the directory cannot be
  opened, else its entries in enumeration order. \<open>openable\<close> tells which paths
  \<^verbatim>\<open>FileOutputStream::Open\<close> accepts.
\<close>

definition ProcessDir_v2a ::
  "(string \<Rightarrow> bool) \<Rightarrow> (string \<Rightarrow> vtkImageData) \<Rightarrow> dirent list option \<Rightarrow> string \<Rightarrow> string \<Rightarrow>
   failure + output_file" where
  "ProcessDir_v2a openable reader dir indir outdir =
     (case dir of
        None \<Rightarrow> Inl (ExitFailure indir)
      | Some entries \<Rightarrow>
          (case scan_v2a indir outdir entries (outdir, []) of
             Inl e \<Rightarrow> Inl e
           | Inr (tmp2, work_items) \<Rightarrow>
               if \<not> openable tmp2 then Inl (IOError tmp2)
               else
                 (case Rewrite_all_v2a reader work_items ParquetWriter_v2a_init of
                    Inl e \<Rightarrow> Inl e
                  | Inr writer \<Rightarrow> Inr (tmp2, Finish writer))))"

subsection \<open>vti2pqtv2b: the splitting converter\<close>

text \<open>
  The row-count ceiling of \<^verbatim>\<open>Rewrite0\<close> is the literal \<^verbatim>\<open>100 * 500 * 500\<close>. The loops take
  it as the parameter \<open>maxrows\<close>, and \<^verbatim>\<open>ProcessDir\<close> passes the literal.
\<close>

definition ceiling_v2b :: int where
  "ceiling_v2b = 100 * 500 * 500"

definition ParquetWriter_v2b_init :: "ParquetWriterOptions \<Rightarrow> ParquetWriter_v2b" where
  "ParquetWriter_v2b_init options = \<lparr>m_writer = [], m_rowid = rowid options\<rparr>"

definition Append_v2b :: "ParquetWriter_v2b \<Rightarrow> int \<Rightarrow> float32 \<Rightarrow> float32 \<Rightarrow> ParquetWriter_v2b" where
  "Append_v2b w timestep x02 x03 =
     w\<lparr>m_writer := m_writer w @
           [Row [Int32 timestep, Int32 (m_rowid w), Float (quantize x02), Float (quantize x03)]],
       m_rowid := m_rowid w + 1\<rparr>"

function Rewrite0_loop_v2b ::
  "int \<Rightarrow> int \<Rightarrow> ParquetWriter_v2b \<Rightarrow> Iterator \<Rightarrow> int \<Rightarrow> ParquetWriter_v2b \<times> Iterator \<times> int" where
  "Rewrite0_loop_v2b maxrows timestep w it n =
     (if Valid it \<and> n < maxrows
      then Rewrite0_loop_v2b maxrows timestep (Append_v2b w timestep (v02 it) (v03 it)) (Next it) (n + 1)
      else (w, it, n))"
  by pat_completeness auto
termination
  by (relation "measure (\<lambda>(c, t, w, it, n). nat (m_n it - m_i it))") (auto simp: Valid_def Next_def)

declare Rewrite0_loop_v2b.simps [simp del]

text \<open>\<^verbatim>\<open>Rewrite0\<close> returns the row count; the iterator it advanced and the file it wrote are returned with it.\<close>

definition Rewrite0_v2b ::
  "(string \<Rightarrow> bool) \<Rightarrow> int \<Rightarrow> int \<Rightarrow> int \<Rightarrow> Iterator \<Rightarrow> string \<Rightarrow> string \<Rightarrow>
   failure + int \<times> Iterator \<times> output_file" where
  "Rewrite0_v2b openable maxrows timestep rowid0 it from to =
     (if \<not> openable to then Inl (IOError to)
      else
        (case Rewrite0_loop_v2b maxrows timestep (ParquetWriter_v2b_init \<lparr>rowid = rowid0\<rparr>) it 0 of
           (w, it', n) \<Rightarrow> Inr (n, it', (to, Finish w))))"

text \<open>
  The loop of \<^verbatim>\<open>Rewrite\<close>. With a ceiling that is not positive the source loop would not
  end; not returning is the value \<open>None\<close>.
\<close>

partial_function (option) Rewrite_loop_v2b ::
  "(string \<Rightarrow> bool) \<Rightarrow> int \<Rightarrow> int \<Rightarrow> string \<Rightarrow> string \<Rightarrow> Iterator \<Rightarrow> int \<Rightarrow> int \<Rightarrow>
   output_file list \<Rightarrow> (failure + output_file list) option" where
  "Rewrite_loop_v2b openable maxrows timestep from to it i rowid0 out =
     (if Valid it then
        (case Rewrite0_v2b openable maxrows timestep rowid0 it from (to @ ''.'' @ to_string i) of
           Inl e \<Rightarrow> Some (Inl e)
         | Inr (n, it', f) \<Rightarrow>
             Rewrite_loop_v2b openable maxrows timestep from to it' (i + 1) (rowid0 + n) (out @ [f]))
      else Some (Inr out))"

definition Rewrite_v2b ::
  "(string \<Rightarrow> bool) \<Rightarrow> (string \<Rightarrow> vtkImageData) \<Rightarrow> int \<Rightarrow> int \<Rightarrow> string \<Rightarrow> string \<Rightarrow>
   (failure + output_file list) option" where
  "Rewrite_v2b openable reader maxrows timestep from to =
     (case Iterator_init (reader from) of
        Inl e \<Rightarrow> Some (Inl e)
      | Inr it \<Rightarrow> Rewrite_loop_v2b openable maxrows timestep from to (SeekToFirst it) 0 0 [])"

fun ProcessDir_loop_v2b ::
  "(string \<Rightarrow> bool) \<Rightarrow> (string \<Rightarrow> vtkImageData) \<Rightarrow> string \<Rightarrow> string \<Rightarrow> dirent list \<Rightarrow>
   output_file list \<Rightarrow> (failure + output_file list) option" where
  "ProcessDir_loop_v2b openable reader indir outdir [] out = Some (Inr out)"
| "ProcessDir_loop_v2b openable reader indir outdir (entry # rest) out =
     (if d_type entry = DT_REG \<and> StringEndWith (d_name entry) ''.vti'' then
        (let f = d_name entry;
             tmp1 = indir @ ''/'' @ f;
             tmp2 = outdir @ ''/'' @ take (size_t_sub (length f) 4) f @ ''.parquet''
         in case substr f (size_t_sub (length f) 9) 5 of
              Inl e \<Rightarrow> Some (Inl e)
            | Inr s \<Rightarrow>
                (case Rewrite_v2b openable reader ceiling_v2b (atoi s) tmp1 tmp2 of
                   None \<Rightarrow> None
                 | Some (Inl e) \<Rightarrow> Some (Inl e)
                 | Some (Inr fs) \<Rightarrow> ProcessDir_loop_v2b openable reader indir outdir rest (out @ fs)))
      else ProcessDir_loop_v2b openable reader indir outdir rest out)"

definition ProcessDir_v2b ::
  "(string \<Rightarrow> bool) \<Rightarrow> (string \<Rightarrow> vtkImageData) \<Rightarrow> dirent list option \<Rightarrow> string \<Rightarrow> string \<Rightarrow>
   (failure + output_file list) option" where
  "ProcessDir_v2b openable reader dir indir outdir =
     (case dir of
        None \<Rightarrow> Some (Inl (ExitFailure indir))
      | Some entries \<Rightarrow> ProcessDir_loop_v2b openable reader indir outdir entries [])"

subsection \<open>vti2pqtv2b: the repack tool\<close>

text \<open>
  A \<^verbatim>\<open>parquet::StreamReader\<close> over a file of the four-column schema is the list of the
  rows not yet read; \<^verbatim>\<open>eof()\<close> holds when it is empty.
\<close>

type_synonym row4 = "int \<times> int \<times> float32 \<times> float32"

definition ceiling_repack :: int where
  "ceiling_repack = 31250000"

definition ParquetWriter_repack_init :: "ParquetWriter_repack" where
  "ParquetWriter_repack_init = \<lparr>m_writer = []\<rparr>"

definition Append_repack ::
  "ParquetWriter_repack \<Rightarrow> int \<Rightarrow> int \<Rightarrow> float32 \<Rightarrow> float32 \<Rightarrow> ParquetWriter_repack" where
  "Append_repack w timestep rowid0 x02 x03 =
     w\<lparr>m_writer := m_writer w @ [Row [Int32 timestep, Int32 rowid0, Float x02, Float x03]]\<rparr>"

fun Rewrite0_loop_repack ::
  "int \<Rightarrow> ParquetWriter_repack \<Rightarrow> row4 list \<Rightarrow> int \<Rightarrow> ParquetWriter_repack \<times> row4 list \<times> int" where
  "Rewrite0_loop_repack maxrows w [] n = (w, [], n)"
| "Rewrite0_loop_repack maxrows w ((timestep, rowid0, x02, x03) # reader) n =
     (if n < maxrows
      then Rewrite0_loop_repack maxrows (Append_repack w timestep rowid0 x02 x03) reader (n + 1)
      else (w, (timestep, rowid0, x02, x03) # reader, n))"

definition Rewrite0_repack ::
  "(string \<Rightarrow> bool) \<Rightarrow> int \<Rightarrow> row4 list \<Rightarrow> string \<Rightarrow> failure + row4 list \<times> output_file" where
  "Rewrite0_repack openable maxrows reader dst =
     (if \<not> openable dst then Inl (IOError dst)
      else
        (case Rewrite0_loop_repack maxrows ParquetWriter_repack_init reader 0 of
           (w, reader', n) \<Rightarrow> Inr (reader', (dst, Finish w))))"

partial_function (option) Rewrite_loop_repack ::
  "(string \<Rightarrow> bool) \<Rightarrow> int \<Rightarrow> string \<Rightarrow> row4 list \<Rightarrow> int \<Rightarrow> output_file list \<Rightarrow>
   (failure + output_file list) option" where
  "Rewrite_loop_repack openable maxrows src reader i out =
     (if reader \<noteq> [] then
        (case Rewrite0_repack openable maxrows reader (src @ ''.'' @ to_string i) of
           Inl e \<Rightarrow> Some (Inl e)
         | Inr (reader', f) \<Rightarrow> Rewrite_loop_repack openable maxrows src reader' (i + 1) (out @ [f]))
      else Some (Inr out))"

text \<open>\<open>source\<close> is \<^verbatim>\<open>ReadableFile::Open\<close> with the reader on it: \<open>None\<close> when the file cannot be opened.\<close>

definition Rewrite_repack ::
  "(string \<Rightarrow> bool) \<Rightarrow> (string \<Rightarrow> row4 list option) \<Rightarrow> int \<Rightarrow> string \<Rightarrow>
   (failure + output_file list) option" where
  "Rewrite_repack openable source maxrows src =
     (case source src of
        None \<Rightarrow> Some (Inl (IOError src))
      | Some reader \<Rightarrow> Rewrite_loop_repack openable maxrows src reader 0 [])"

fun ProcessDir_loop_repack ::
  "(string \<Rightarrow> bool) \<Rightarrow> (string \<Rightarrow> row4 list option) \<Rightarrow> string \<Rightarrow> dirent list \<Rightarrow>
   output_file list \<Rightarrow> (failure + output_file list) option" where
  "ProcessDir_loop_repack openable source indir [] out = Some (Inr out)"
| "ProcessDir_loop_repack openable source indir (entry # rest) out =
     (if d_type entry = DT_REG \<and> StringEndWith (d_name entry) ''.parquet'' then
        (case Rewrite_repack openable source ceiling_repack (indir @ ''/'' @ d_name entry) of
           None \<Rightarrow> None
         | Some (Inl e) \<Rightarrow> Some (Inl e)
         | Some (Inr fs) \<Rightarrow> ProcessDir_loop_repack openable source indir rest (out @ fs))
      else ProcessDir_loop_repack openable source indir rest out)"

definition ProcessDir_repack ::
  "(string \<Rightarrow> bool) \<Rightarrow> (string \<Rightarrow> row4 list option) \<Rightarrow> dirent list option \<Rightarrow> string \<Rightarrow>
   (failure + output_file list) option" where
  "ProcessDir_repack openable source dir indir =
     (case dir of
        None \<Rightarrow> Some (Inl (ExitFailure indir))
      | Some entries \<Rightarrow> ProcessDir_loop_repack openable source indir entries [])"

text \<open>Reading a written file back: the rows of the four-column schema, in file order.\<close>

fun decode_row :: "event \<Rightarrow> row4 option" where
  "decode_row (Row [Int32 t, Int32 r, Float a, Float b]) = Some (t, r, a, b)"
| "decode_row ev = None"

subsection \<open>The per-file converter with metadata\<close>

record Iterator_vti = Iterator +
  m_prs :: "float32 list"
  m_tev :: "float32 list"

definition Iterator_vti_init :: "vtkImageData \<Rightarrow> failure + Iterator_vti" where
  "Iterator_vti_init img =
     (case GET_POINTER (PointData img) ''prs'' of
        Inl e \<Rightarrow> Inl e
      | Inr p \<Rightarrow>
     (case GET_POINTER (PointData img) ''tev'' of
        Inl e \<Rightarrow> Inl e
      | Inr t \<Rightarrow>
     (case GET_POINTER (PointData img) ''v02'' of
        Inl e \<Rightarrow> Inl e
      | Inr a \<Rightarrow>
     (case GET_POINTER (PointData img) ''v03'' of
        Inl e \<Rightarrow> Inl e
      | Inr b \<Rightarrow>
          Inr \<lparr>m_n = to_int32 (NumberOfPoints img), m_v02 = a, m_v03 = b, m_i = 0,
               m_prs = p, m_tev = t\<rparr>))))"

text \<open>
  \<open>dstr\<close> is \<^verbatim>\<open>std::to_string(double)\<close>. The unordered map is the list of its entries
  (the keys are distinct).
\<close>

definition ExtraMetadata :: "(real \<Rightarrow> string) \<Rightarrow> vtkImageData \<Rightarrow> failure + (string \<times> string) list" where
  "ExtraMetadata dstr img =
     (case FieldData img ''cycle_index'' of
        None \<Rightarrow> Inl NullPointerDereference
      | Some [] \<Rightarrow> Inl OutOfBoundsRead
      | Some (cycle_index # others) \<Rightarrow>
          Inr [(''extent_0'', to_string (Extent img ! 0)),
               (''extent_1'', to_string (Extent img ! 1)),
               (''extent_2'', to_string (Extent img ! 2)),
               (''extent_3'', to_string (Extent img ! 3)),
               (''extent_4'', to_string (Extent img ! 4)),
               (''extent_5'', to_string (Extent img ! 5)),
               (''origin_0'', dstr (Origin img ! 0)),
               (''origin_1'', dstr (Origin img ! 1)),
               (''origin_2'', dstr (Origin img ! 2)),
               (''spacing_0'', dstr (Spacing img ! 0)),
               (''spacing_1'', dstr (Spacing img ! 1)),
               (''spacing_2'', dstr (Spacing img ! 2)),
               (''cycle_index'', to_string cycle_index)])"

definition ParquetWriter_vti_init :: "ParquetWriter_v2b" where
  "ParquetWriter_vti_init = \<lparr>m_writer = [], m_rowid = 0\<rparr>"

definition Append_vti :: "ParquetWriter_v2b \<Rightarrow> Iterator_vti \<Rightarrow> ParquetWriter_v2b" where
  "Append_vti w it =
     w\<lparr>m_writer := m_writer w @
           [Row [Int32 (m_rowid w), Float (quantize (v02 it)), Float (quantize (v03 it))]],
       m_rowid := m_rowid w + 1\<rparr>"

function Rewrite_loop_vti :: "ParquetWriter_v2b \<Rightarrow> Iterator_vti \<Rightarrow> ParquetWriter_v2b" where
  "Rewrite_loop_vti w it =
     (if Valid it then Rewrite_loop_vti (Append_vti w it) (Next it) else w)"
  by pat_completeness auto
termination
  by (relation "measure (\<lambda>(w, it). nat (m_n it - m_i it))") (auto simp: Valid_def Next_def)

declare Rewrite_loop_vti.simps [simp del]

text \<open>The result is the output path, its key-value metadata and its rows.\<close>

definition Rewrite_vti ::
  "(string \<Rightarrow> bool) \<Rightarrow> (string \<Rightarrow> vtkImageData) \<Rightarrow> (real \<Rightarrow> string) \<Rightarrow> string \<Rightarrow> string \<Rightarrow>
   failure + string \<times> (string \<times> string) list \<times> event list" where
  "Rewrite_vti openable reader dstr from to =
     (if \<not> openable to then Inl (IOError to)
      else
        (case ExtraMetadata dstr (reader from) of
           Inl e \<Rightarrow> Inl e
         | Inr kv \<Rightarrow>
             (case Iterator_vti_init (reader from) of
                Inl e \<Rightarrow> Inl e
              | Inr it \<Rightarrow>
                  Inr (to, kv, Finish (Rewrite_loop_vti ParquetWriter_vti_init (SeekToFirst it))))))"

section \<open>Schemas and writer properties\<close>

datatype physical_type = INT32 | FLOAT

definition GetSchema_v2 :: "(string \<times> physical_type) list" where
  "GetSchema_v2 = [(''timestep'', INT32), (''rowid'', INT32), (''v02'', FLOAT), (''v03'', FLOAT)]"

definition GetSchema_vti :: "(string \<times> physical_type) list" where
  "GetSchema_vti = [(''rowid'', INT32), (''v02'', FLOAT), (''v03'', FLOAT)]"

definition GetSchema_vtu :: "(string \<times> physical_type) list" where
  "GetSchema_vtu =
     [(''rho'', FLOAT), (''prs'', FLOAT), (''tev'', FLOAT), (''xdt'', FLOAT), (''ydt'', FLOAT),
      (''zdt'', FLOAT), (''snd'', FLOAT), (''grd'', FLOAT), (''mat'', FLOAT), (''v02'', FLOAT),
      (''v03'', FLOAT)]"

datatype Compression = UNCOMPRESSED | SNAPPY | GZIP | LZ4 | ZSTD

datatype Encoding = PLAIN | PLAIN_DICTIONARY | RLE | DELTA_BINARY_PACKED | RLE_DICTIONARY

text \<open>
  The state of a \<^verbatim>\<open>parquet::WriterProperties::Builder\<close>: the defaults for all columns and
  the settings made for single columns. The Parquet library, not this repository, sets
  the state of a fresh builder; it is the argument \<open>b\<close> of the configurations below.
\<close>

record Builder =
  default_compression :: Compression
  default_encoding :: Encoding
  default_dictionary_enabled :: bool
  column_compression :: "string \<Rightarrow> Compression option"
  column_encoding :: "string \<Rightarrow> Encoding option"

definition compression_path :: "string \<Rightarrow> Compression \<Rightarrow> Builder \<Rightarrow> Builder" where
  "compression_path path codec b = b\<lparr>column_compression := (column_compression b)(path \<mapsto> codec)\<rparr>"

definition compression_all :: "Compression \<Rightarrow> Builder \<Rightarrow> Builder" where
  "compression_all codec b = b\<lparr>default_compression := codec\<rparr>"

definition encoding_path :: "string \<Rightarrow> Encoding \<Rightarrow> Builder \<Rightarrow> Builder" where
  "encoding_path path enc b = b\<lparr>column_encoding := (column_encoding b)(path \<mapsto> enc)\<rparr>"

definition encoding_all :: "Encoding \<Rightarrow> Builder \<Rightarrow> Builder" where
  "encoding_all enc b = b\<lparr>default_encoding := enc\<rparr>"

definition disable_dictionary :: "Builder \<Rightarrow> Builder" where
  "disable_dictionary b = b\<lparr>default_dictionary_enabled := False\<rparr>"

text \<open>What the built properties answer for a column.\<close>

definition compression_of :: "Builder \<Rightarrow> string \<Rightarrow> Compression" where
  "compression_of b path = (case column_compression b path of Some c \<Rightarrow> c | None \<Rightarrow> default_compression b)"

definition encoding_of :: "Builder \<Rightarrow> string \<Rightarrow> Encoding" where
  "encoding_of b path = (case column_encoding b path of Some e \<Rightarrow> e | None \<Rightarrow> default_encoding b)"

definition dictionary_enabled :: "Builder \<Rightarrow> string \<Rightarrow> bool" where
  "dictionary_enabled b path = default_dictionary_enabled b"

text \<open>A fresh builder: the library's three defaults and no setting for any single column.\<close>

definition fresh_builder :: "Compression \<Rightarrow> Encoding \<Rightarrow> bool \<Rightarrow> Builder" where
  "fresh_builder codec enc dict =
     \<lparr>default_compression = codec, default_encoding = enc,
      default_dictionary_enabled = dict,
      column_compression = (\<lambda>p. None), column_encoding = (\<lambda>p. None)\<rparr>"

text \<open>The Parquet C++ library enables dictionary encoding in a fresh builder.\<close>

definition library_builder :: Builder where
  "library_builder = fresh_builder UNCOMPRESSED PLAIN True"

text \<open>
  The constructor of \<^verbatim>\<open>ParquetWriter\<close> in vti2pqtv2a and in both programs of vti2pqtv2b
  (the three are the same statements).
\<close>

definition properties_v2 :: "Builder \<Rightarrow> Builder" where
  "properties_v2 b =
     disable_dictionary
       (encoding_all PLAIN
         (encoding_path ''rowid'' DELTA_BINARY_PACKED
           (encoding_path ''timestep'' DELTA_BINARY_PACKED
             (compression_all UNCOMPRESSED
               (compression_path ''rowid'' SNAPPY
                 (compression_path ''timestep'' SNAPPY b))))))"

text \<open>The per-file converter with metadata.\<close>

definition properties_vti :: "Builder \<Rightarrow> Builder" where
  "properties_vti b =
     disable_dictionary
       (encoding_all PLAIN
         (encoding_path ''rowid'' DELTA_BINARY_PACKED
           (compression_all UNCOMPRESSED
             (compression_path ''rowid'' SNAPPY b))))"

text \<open>The unstructured-grid converter: \<^verbatim>\<open>disable_dictionary\<close> is commented out there.\<close>

definition properties_vtu :: "Builder \<Rightarrow> Builder" where
  "properties_vtu b = compression_all ZSTD b"

text \<open>Splitting a list into consecutive pieces of \<open>c\<close> elements, the last one shorter when \<open>c\<close> does not divide the length.\<close>

function chunks :: "nat \<Rightarrow> 'a list \<Rightarrow> 'a list list" where
  "chunks c xs = (if c = 0 \<or> xs = [] then [] else take c xs # chunks c (drop c xs))"
  by pat_completeness auto
termination
  by (relation "measure (\<lambda>(c, xs). length xs)") auto

declare chunks.simps [simp del]

text \<open>The row groups of a stream: its rows, cut at the row-group ends.\<close>

fun row_groups :: "event list \<Rightarrow> event list list" where
  "row_groups [] = [[]]"
| "row_groups (EndRowGroup # evs) = [] # row_groups evs"
| "row_groups (Row cs # evs) = (Row cs # hd (row_groups evs)) # tl (row_groups evs)"

text \<open>The calls a client makes on the writer of vti2pqtv2a.\<close>

datatype writer_call = CallAppend int float32 float32 | CallFlushRowGroup

fun run_calls :: "ParquetWriter_v2a \<Rightarrow> writer_call list \<Rightarrow> ParquetWriter_v2a" where
  "run_calls w [] = w"
| "run_calls w (CallAppend t a b # cs) = run_calls (Append_v2a w t a b) cs"
| "run_calls w (CallFlushRowGroup # cs) = run_calls (FlushRowGroup w) cs"

section \<open>Specification functions\<close>

text \<open>The row that \<^verbatim>\<open>Append\<close> of the splitting converter writes for the iterator's position, with row id \<open>r\<close>.\<close>

definition row_v2b :: "int \<Rightarrow> int \<Rightarrow> Iterator \<Rightarrow> event" where
  "row_v2b t r it = Row [Int32 t, Int32 r, Float (quantize (v02 it)), Float (quantize (v03 it))]"

text \<open>The rows of the whole stream from the iterator's position on, numbered from \<open>r\<close>.\<close>

function iter_rows :: "int \<Rightarrow> int \<Rightarrow> Iterator \<Rightarrow> event list" where
  "iter_rows t r it = (if Valid it then row_v2b t r it # iter_rows t (r + 1) (Next it) else [])"
  by pat_completeness auto
termination
  by (relation "measure (\<lambda>(t, r, it). nat (m_n it - m_i it))") (auto simp: Valid_def Next_def)

declare iter_rows.simps [simp del]

text \<open>The pieces of a split, each under the base name with its index from \<open>i\<close> on.\<close>

definition numbered :: "string \<Rightarrow> int \<Rightarrow> 'a list \<Rightarrow> (string \<times> 'a) list" where
  "numbered base i chs = zip (map (\<lambda>j. base @ ''.'' @ to_string (i + int j)) [0..<length chs]) chs"

text \<open>A row of the four-column schema as the repack writer streams it.\<close>

fun enc_row :: "row4 \<Rightarrow> event" where
  "enc_row (t, r, a, b) = Row [Int32 t, Int32 r, Float a, Float b]"

text \<open>Reading a written stream back: the rows that decode, in order.\<close>

definition read_rows :: "event list \<Rightarrow> row4 list" where
  "read_rows evs = List.map_filter decode_row evs"

text \<open>
  The invariant of the writer of vti2pqtv2a: every row group of the stream is numbered
  from 0, the counter is the length of the last group (0 when a flush is pending), and
  no group after the first is empty.
\<close>

definition rowid_inv :: "ParquetWriter_v2a \<Rightarrow> bool" where
  "rowid_inv w \<longleftrightarrow>
     map (map rowid_of) (row_groups (m_writer w)) =
       map (\<lambda>g. map (\<lambda>j. Some (int j)) [0..<length g]) (row_groups (m_writer w)) \<and>
     m_rowid w = (if m_pending_rgflush w then 0 else int (length (last (row_groups (m_writer w))))) \<and>
     [] \<notin> set (tl (row_groups (m_writer w)))"


text \<open>
  The matching files of a directory listing in enumeration order, each with its key and its
  path, as the scan of vti2pqtv2a reads them.
\<close>

fun keyed_v2a :: "string \<Rightarrow> dirent list \<Rightarrow> (int \<times> string) list" where
  "keyed_v2a indir [] = []"
| "keyed_v2a indir (entry # rest) =
     (if d_type entry = DT_REG \<and> StringEndWith (d_name entry) ''.vti''
      then (atoi (take 5 (drop (size_t_sub (length (d_name entry)) 9) (d_name entry))),
            indir @ ''/'' @ d_name entry) # keyed_v2a indir rest
      else keyed_v2a indir rest)"


text \<open>The rows a converter writes for the snapshot at a path, under the key \<open>t\<close> and numbered from 0.\<close>

definition rows_of_file :: "(string \<Rightarrow> vtkImageData) \<Rightarrow> int \<Rightarrow> string \<Rightarrow> event list" where
  "rows_of_file reader t src =
     (case Iterator_init (reader src) of
        Inl e \<Rightarrow> []
      | Inr it \<Rightarrow> iter_rows t 0 (SeekToFirst it))"

text \<open>
  The matching files of a directory listing in enumeration order, each with its key, its
  path and the base name of its outputs, as \<^verbatim>\<open>ProcessDir\<close> of the splitting converter
  reads them.
\<close>

fun keyed_v2b :: "string \<Rightarrow> string \<Rightarrow> dirent list \<Rightarrow> (int \<times> string \<times> string) list" where
  "keyed_v2b indir outdir [] = []"
| "keyed_v2b indir outdir (entry # rest) =
     (if d_type entry = DT_REG \<and> StringEndWith (d_name entry) ''.vti''
      then (atoi (take 5 (drop (size_t_sub (length (d_name entry)) 9) (d_name entry))),
            indir @ ''/'' @ d_name entry,
            outdir @ ''/'' @ take (size_t_sub (length (d_name entry)) 4) (d_name entry) @ ''.parquet'')
           # keyed_v2b indir outdir rest
      else keyed_v2b indir outdir rest)"

text \<open>The output files of one source file: its rows cut at the row-count ceiling, under the base name with the indices from 0.\<close>

definition split_of_file ::
  "(string \<Rightarrow> vtkImageData) \<Rightarrow> int \<times> string \<times> string \<Rightarrow> output_file list" where
  "split_of_file reader item =
     (case item of (t, src, dst) \<Rightarrow>
        numbered dst 0 (chunks (nat ceiling_v2b) (rows_of_file reader t src)))"


text \<open>Magnitude, sign and exponent of a float.\<close>

fun mag :: "float32 \<Rightarrow> real" where
  "mag (FFinite s m e) = real m * 2 powi e"
| "mag (FInf s) = 0"
| "mag FNaN = 0"

fun fsign :: "float32 \<Rightarrow> bool" where
  "fsign (FFinite s m e) = s"
| "fsign (FInf s) = s"
| "fsign FNaN = False"

fun fexp :: "float32 \<Rightarrow> int" where
  "fexp (FFinite s m e) = e"
| "fexp (FInf s) = 0"
| "fexp FNaN = 0"

text \<open>The integer that \<^verbatim>\<open>roundf\<close> yields in the quantization of \<open>x\<close>, as a magnitude.\<close>

definition qint :: "float32 \<Rightarrow> nat" where
  "qint x = nat \<lfloor>mag (fmul x (float_of_int 1000000)) + 1 / 2\<rfloor>"


section \<open>Splitting a stream over files\<close>

lemma chunks_Nil [simp]: "chunks c [] = []"
  by (simp add: chunks.simps)

lemma chunks_step: "0 < c \<Longrightarrow> xs \<noteq> [] \<Longrightarrow> chunks c xs = take c xs # chunks c (drop c xs)"
  by (subst chunks.simps) simp

lemma concat_chunks: "0 < c \<Longrightarrow> concat (chunks c xs) = xs"
proof (induction c xs rule: chunks.induct)
  case (1 c xs)
  show ?case
  proof (cases "xs = []")
    case True
    then show ?thesis by simp
  next
    case False
    with 1 show ?thesis by (simp add: chunks_step)
  qed
qed

lemma map_length_chunks:
  "0 < c \<Longrightarrow> map length (chunks c xs) =
     replicate (length xs div c) c @ (if length xs mod c = 0 then [] else [length xs mod c])"
proof (induction c xs rule: chunks.induct)
  case (1 c xs)
  show ?case
  proof (cases "xs = []")
    case True
    then show ?thesis by simp
  next
    case False
    note ne = this
    show ?thesis
    proof (cases "length xs < c")
      case True
      with ne 1 show ?thesis by (simp add: chunks_step)
    next
      case False
      then have le: "c \<le> length xs" by simp
      have d: "(length xs - c) div c = length xs div c - 1"
        using le "1.prems" by (simp add: le_div_geq)
      have m: "(length xs - c) mod c = length xs mod c"
        using le by (simp add: le_mod_geq)
      have pos: "0 < length xs div c"
        using le "1.prems" by (simp add: div_greater_zero_iff)
      have "map length (chunks c xs) = c # map length (chunks c (drop c xs))"
        using ne "1.prems" le by (simp add: chunks_step)
      also have "\<dots> = c # replicate (length xs div c - 1) c @ (if length xs mod c = 0 then [] else [length xs mod c])"
        using 1 ne by (simp add: d m)
      also have "\<dots> = replicate (length xs div c) c @ (if length xs mod c = 0 then [] else [length xs mod c])"
        using pos by (cases "length xs div c") simp_all
      finally show ?thesis .
    qed
  qed
qed

lemma chunks_nonempty: "0 < c \<Longrightarrow> [] \<notin> set (chunks c xs)"
proof (induction c xs rule: chunks.induct)
  case (1 c xs)
  show ?case
  proof (cases "xs = []")
    case True
    then show ?thesis by simp
  next
    case False
    with 1 show ?thesis by (simp add: chunks_step)
  qed
qed

lemma iter_rows_Valid: "Valid it \<Longrightarrow> iter_rows t r it = row_v2b t r it # iter_rows t (r + 1) (Next it)"
  by (subst iter_rows.simps) simp

lemma iter_rows_not_Valid: "\<not> Valid it \<Longrightarrow> iter_rows t r it = []"
  by (subst iter_rows.simps) simp

lemma iter_rows_Nil_iff: "iter_rows t r it = [] \<longleftrightarrow> \<not> Valid it"
  by (subst iter_rows.simps) simp

lemma length_iter_rows:
  "length (iter_rows t r it) = (if 0 \<le> m_i it then nat (m_n it - m_i it) else 0)"
proof (induction t r it rule: iter_rows.induct)
  case (1 t r it)
  show ?case
  proof (cases "Valid it")
    case True
    then have "length (iter_rows t r it) = Suc (length (iter_rows t (r + 1) (Next it)))"
      by (simp add: iter_rows_Valid)
    also have "\<dots> = Suc (nat (m_n it - (m_i it + 1)))"
      using True 1 by (simp add: Valid_def Next_def)
    finally show ?thesis using True by (auto simp: Valid_def)
  next
    case False
    then show ?thesis by (auto simp: iter_rows_not_Valid Valid_def)
  qed
qed

lemma rowid_of_iter_rows:
  "map rowid_of (iter_rows t r it) = map (\<lambda>j. Some (r + int j)) [0..<length (iter_rows t r it)]"
proof (induction t r it rule: iter_rows.induct)
  case (1 t r it)
  show ?case
  proof (cases "Valid it")
    case True
    have "map (\<lambda>j. Some (r + int j)) [0..<Suc (length (iter_rows t (r + 1) (Next it)))]
        = Some r # map (\<lambda>j. Some (r + 1 + int j)) [0..<length (iter_rows t (r + 1) (Next it))]"
      by (simp add: upt_conv_Cons map_Suc_upt [symmetric] del: upt_Suc)
    then show ?thesis
      using True 1 by (simp add: iter_rows_Valid row_v2b_def)
  next
    case False
    then show ?thesis by (simp add: iter_rows_not_Valid)
  qed
qed

lemma Rewrite0_loop_v2b_rows:
  "Rewrite0_loop_v2b c t w it n = (w', it', n') \<Longrightarrow>
     m_writer w' = m_writer w @ take (nat (c - n)) (iter_rows t (m_rowid w) it) \<and>
     m_rowid w' = m_rowid w + int (length (take (nat (c - n)) (iter_rows t (m_rowid w) it))) \<and>
     n' = n + int (length (take (nat (c - n)) (iter_rows t (m_rowid w) it))) \<and>
     iter_rows t (m_rowid w') it' = drop (nat (c - n)) (iter_rows t (m_rowid w) it) \<and>
     (Valid it' \<longleftrightarrow> drop (nat (c - n)) (iter_rows t (m_rowid w) it) \<noteq> [])"
proof (induction c t w it n arbitrary: w' it' n' rule: Rewrite0_loop_v2b.induct)
  case (1 c t w it n)
  show ?case
  proof (cases "Valid it \<and> n < c")
    case True
    let ?w1 = "Append_v2b w t (v02 it) (v03 it)"
    have step: "Rewrite0_loop_v2b c t ?w1 (Next it) (n + 1) = (w', it', n')"
      using "1.prems" True by (subst (asm) Rewrite0_loop_v2b.simps) simp
    note ih = "1.IH" [OF True step]
    have w1: "m_writer ?w1 = m_writer w @ [row_v2b t (m_rowid w) it]" "m_rowid ?w1 = m_rowid w + 1"
      by (simp_all add: Append_v2b_def row_v2b_def)
    have k: "nat (c - n) = Suc (nat (c - (n + 1)))"
      using True by linarith
    have rows: "iter_rows t (m_rowid w) it = row_v2b t (m_rowid w) it # iter_rows t (m_rowid w + 1) (Next it)"
      using True by (simp add: iter_rows_Valid)
    show ?thesis
      using ih unfolding w1 k rows by (elim conjE) simp
  next
    case False
    then have eq: "w' = w" "it' = it" "n' = n"
      using "1.prems" by (subst (asm) Rewrite0_loop_v2b.simps, simp)+
    show ?thesis
    proof (cases "Valid it")
      case True
      with False have "nat (c - n) = 0" by simp
      then show ?thesis using eq True by (simp add: iter_rows_Nil_iff)
    next
      case False
      then show ?thesis using eq by (simp add: iter_rows_not_Valid)
    qed
  qed
qed

lemma numbered_Nil [simp]: "numbered base i [] = []"
  by (simp add: numbered_def)

lemma numbered_Cons: "numbered base i (ch # chs) = (base @ ''.'' @ to_string i, ch) # numbered base (i + 1) chs"
proof -
  have "[0..<Suc (length chs)] = 0 # map Suc [0..<length chs]"
    by (simp add: upt_conv_Cons map_Suc_upt del: upt_Suc)
  then show ?thesis
    by (simp add: numbered_def comp_def ac_simps del: upt_Suc)
qed

lemma Rewrite0_v2b_rows:
  assumes "openable dst"
  shows "\<exists>it'. Rewrite0_v2b openable c t r0 it src dst =
           Inr (int (length (take (nat c) (iter_rows t r0 it))), it', (dst, take (nat c) (iter_rows t r0 it))) \<and>
         iter_rows t (r0 + int (length (take (nat c) (iter_rows t r0 it)))) it' = drop (nat c) (iter_rows t r0 it) \<and>
         (Valid it' \<longleftrightarrow> drop (nat c) (iter_rows t r0 it) \<noteq> [])"
proof -
  obtain w' it' n' where l: "Rewrite0_loop_v2b c t (ParquetWriter_v2b_init \<lparr>rowid = r0\<rparr>) it 0 = (w', it', n')"
    by (cases "Rewrite0_loop_v2b c t (ParquetWriter_v2b_init \<lparr>rowid = r0\<rparr>) it 0") auto
  from Rewrite0_loop_v2b_rows [OF l] show ?thesis
    using assms l by (elim conjE) (simp add: Rewrite0_v2b_def ParquetWriter_v2b_init_def Finish_def)
qed

lemma Rewrite_loop_v2b_chunks:
  assumes c: "0 < c" and op: "\<forall>p. openable p"
  shows "Rewrite_loop_v2b openable c t src dst it i r0 out =
           Some (Inr (out @ numbered dst i (chunks (nat c) (iter_rows t r0 it))))"
proof (induction "length (iter_rows t r0 it)" arbitrary: it i r0 out rule: less_induct)
  case less
  show ?case
  proof (cases "Valid it")
    case False
    then show ?thesis
      by (subst Rewrite_loop_v2b.simps) (simp add: iter_rows_not_Valid)
  next
    case True
    let ?R = "iter_rows t r0 it"
    let ?k = "int (length (take (nat c) ?R))"
    have ne: "?R \<noteq> []" using True by (simp add: iter_rows_Nil_iff)
    have opn: "openable (dst @ ''.'' @ to_string i)" using op by simp
    obtain it' where
      r0: "Rewrite0_v2b openable c t r0 it src (dst @ ''.'' @ to_string i) =
             Inr (?k, it', (dst @ ''.'' @ to_string i, take (nat c) ?R))"
      and rest: "iter_rows t (r0 + ?k) it' = drop (nat c) ?R"
      using Rewrite0_v2b_rows [of openable "dst @ ''.'' @ to_string i" c t r0 it src] opn by blast
    have "length (iter_rows t (r0 + ?k) it') < length ?R"
      using rest ne c by simp
    from less [OF this]
    have ih: "Rewrite_loop_v2b openable c t src dst it' (i + 1) (r0 + ?k) (out @ [(dst @ ''.'' @ to_string i, take (nat c) ?R)]) =
      Some (Inr ((out @ [(dst @ ''.'' @ to_string i, take (nat c) ?R)]) @ numbered dst (i + 1) (chunks (nat c) (drop (nat c) ?R))))"
      unfolding rest .
    have ch: "chunks (nat c) ?R = take (nat c) ?R # chunks (nat c) (drop (nat c) ?R)"
      using c ne by (simp add: chunks_step)
    show ?thesis
      apply (subst Rewrite_loop_v2b.simps)
      apply (simp only: True if_True r0 sum.case prod.case ih ch numbered_Cons)
      apply simp
      done
  qed
qed

lemma decode_enc_row [simp]: "decode_row (enc_row r) = Some r"
  by (cases r) simp

lemma is_row_enc_row [simp]: "is_row (enc_row r)"
  by (cases r) simp

lemma map_fst_numbered: "map fst (numbered base i chs) = map (\<lambda>j. base @ ''.'' @ to_string (i + int j)) [0..<length chs]"
  by (simp add: numbered_def)

lemma map_snd_numbered: "map snd (numbered base i chs) = chs"
  by (simp add: numbered_def)

lemma length_numbered: "length (numbered base i chs) = length chs"
  by (simp add: numbered_def)

lemma base_not_numbered: "base \<notin> fst ` set (numbered base i chs)"
proof
  assume "base \<in> fst ` set (numbered base i chs)"
  then have "base \<in> set (map fst (numbered base i chs))" by simp
  then obtain j where "base = base @ ''.'' @ to_string (i + int j)"
    unfolding map_fst_numbered by auto
  then have "length base = length (base @ ''.'' @ to_string (i + int j))" by simp
  then show False by simp
qed

lemma to_string_0: "to_string 0 = ''0''"
  by (simp add: to_string_def to_string_nat.simps digit_char_def)

lemma Rewrite0_loop_repack_rows:
  "Rewrite0_loop_repack c w rows n =
     (w\<lparr>m_writer := m_writer w @ map enc_row (take (nat (c - n)) rows)\<rparr>,
      drop (nat (c - n)) rows,
      n + int (length (take (nat (c - n)) rows)))"
proof (induction rows arbitrary: w n)
  case Nil
  show ?case by simp
next
  case (Cons r rows)
  obtain t rid a b where r: "r = (t, rid, a, b)" by (cases r) auto
  show ?case
  proof (cases "n < c")
    case True
    then have k: "nat (c - n) = Suc (nat (c - (n + 1)))" by linarith
    show ?thesis
      unfolding r using True by (simp add: Cons.IH k Append_repack_def)
  next
    case False
    then have "nat (c - n) = 0" by simp
    then show ?thesis unfolding r using False by simp
  qed
qed

lemma Rewrite_loop_repack_chunks:
  assumes c: "0 < c" and op: "\<forall>p. openable p"
  shows "Rewrite_loop_repack openable c src rows i out =
           Some (Inr (out @ numbered src i (chunks (nat c) (map enc_row rows))))"
proof (induction "length rows" arbitrary: rows i out rule: less_induct)
  case less
  show ?case
  proof (cases "rows = []")
    case True
    then show ?thesis
      by (subst Rewrite_loop_repack.simps) simp
  next
    case False
    have opn: "openable (src @ ''.'' @ to_string i)" using op by simp
    have r0: "Rewrite0_repack openable c rows (src @ ''.'' @ to_string i) =
        Inr (drop (nat c) rows, (src @ ''.'' @ to_string i, map enc_row (take (nat c) rows)))"
      using opn by (simp add: Rewrite0_repack_def Rewrite0_loop_repack_rows ParquetWriter_repack_init_def Finish_def)
    have "length (drop (nat c) rows) < length rows"
      using False c by simp
    note ih = less [OF this]
    have ch: "chunks (nat c) (map enc_row rows) =
        map enc_row (take (nat c) rows) # chunks (nat c) (map enc_row (drop (nat c) rows))"
      using c False by (simp add: chunks_step take_map drop_map)
    show ?thesis
      apply (subst Rewrite_loop_repack.simps)
      apply (simp only: False if_True r0 sum.case prod.case ih ch numbered_Cons)
      apply simp
      done
  qed
qed

lemma is_row_iter_rows: "ev \<in> set (iter_rows t r it) \<Longrightarrow> is_row ev"
proof (induction t r it rule: iter_rows.induct)
  case (1 t r it)
  show ?case
  proof (cases "Valid it")
    case True
    with 1 show ?thesis by (auto simp: iter_rows_Valid row_v2b_def)
  next
    case False
    with 1 show ?thesis by (simp add: iter_rows_not_Valid)
  qed
qed

lemma row_count_all_rows: "(\<And>ev. ev \<in> set evs \<Longrightarrow> is_row ev) \<Longrightarrow> row_count evs = length evs"
  by (simp add: row_count_def)

lemma set_chunks: "ch \<in> set (chunks c xs) \<Longrightarrow> set ch \<subseteq> set xs"
proof (induction c xs rule: chunks.induct)
  case (1 c xs)
  show ?case
  proof (cases "c = 0 \<or> xs = []")
    case True
    with 1 show ?thesis by (simp add: chunks.simps)
  next
    case False
    then have "chunks c xs = take c xs # chunks c (drop c xs)" by (simp add: chunks_step)
    with 1 False show ?thesis
      by (auto dest: in_set_takeD in_set_dropD)
  qed
qed

lemma row_count_chunks:
  assumes "\<And>ev. ev \<in> set evs \<Longrightarrow> is_row ev"
  shows "map row_count (chunks c evs) = map length (chunks c evs)"
proof (rule map_cong [OF refl])
  fix ch assume "ch \<in> set (chunks c evs)"
  then have "set ch \<subseteq> set evs" by (rule set_chunks)
  then show "row_count ch = length ch" using assms by (intro row_count_all_rows) auto
qed

lemma Rewrite_v2b_chunks:
  assumes c: "0 < c" and op: "\<forall>p. openable p" and it: "Iterator_init (reader src) = Inr it"
  shows "Rewrite_v2b openable reader c t src dst =
           Some (Inr (numbered dst 0 (chunks (nat c) (iter_rows t 0 (SeekToFirst it)))))"
  using Rewrite_loop_v2b_chunks [OF c op, of t src dst "SeekToFirst it" 0 0 "[]"]
  by (simp add: Rewrite_v2b_def it)

lemma length_iter_rows_first: "length (iter_rows t r (SeekToFirst it)) = nat (m_n it)"
  by (simp add: length_iter_rows SeekToFirst_def)

lemma Rewrite_repack_chunks:
  assumes c: "0 < c" and op: "\<forall>p. openable p" and src: "source src = Some rows"
  shows "Rewrite_repack openable source c src =
           Some (Inr (numbered src 0 (chunks (nat c) (map enc_row rows))))"
  using Rewrite_loop_repack_chunks [OF c op, of src rows 0 "[]"]
  by (simp add: Rewrite_repack_def src)

lemma sum_list_length_chunks: "0 < c \<Longrightarrow> sum_list (map length (chunks c xs)) = length xs"
  using concat_chunks [of c xs] length_concat [of "chunks c xs"] by simp

lemma split_files_props:
  fixes dst :: string
  assumes c: "0 < c" and rows: "\<forall>ev \<in> set evs. is_row ev"
  defines "files \<equiv> numbered dst 0 (chunks (nat c) evs)"
  shows "map fst files = map (\<lambda>k. dst @ ''.'' @ to_string (int k)) [0..<length files]"
    and "map (row_count \<circ> snd) files =
           replicate (length evs div nat c) (nat c) @
           (if length evs mod nat c = 0 then [] else [length evs mod nat c])"
    and "sum_list (map (row_count \<circ> snd) files) = length evs"
    and "concat (map snd files) = evs"
proof -
  have c': "0 < nat c" using c by simp
  show "map fst files = map (\<lambda>k. dst @ ''.'' @ to_string (int k)) [0..<length files]"
    by (simp add: files_def map_fst_numbered length_numbered)
  have cnt: "map (row_count \<circ> snd) files = map length (chunks (nat c) evs)"
    unfolding files_def map_map [symmetric] map_snd_numbered
    by (rule row_count_chunks) (use rows in blast)
  show "map (row_count \<circ> snd) files =
           replicate (length evs div nat c) (nat c) @
           (if length evs mod nat c = 0 then [] else [length evs mod nat c])"
    unfolding cnt by (rule map_length_chunks [OF c'])
  show "sum_list (map (row_count \<circ> snd) files) = length evs"
    unfolding cnt by (rule sum_list_length_chunks [OF c'])
  show "concat (map snd files) = evs"
    unfolding files_def map_snd_numbered by (rule concat_chunks [OF c'])
qed

text \<open>
  Claim C1. A stream of \<open>N\<close> rows driven through the splitting loop with a positive
  row-count ceiling \<open>c\<close> ends, and the files it wrote bear the suffixes \<open>.0\<close>, \<open>.1\<close>, \<open>.2\<close>,
  ... in order; the row counts are \<open>c\<close> for every file but possibly the last, which holds
  the remainder; the counts add up to \<open>N\<close>; the files, read one after the other, hold
  the rows of the stream in order. This holds for the splitting converter, where \<open>N\<close> is
  the iterator's length, and for the repack tool, where \<open>N\<close> is the number of rows of its
  input. The ceilings the two programs pass are 25,000,000 and 31,250,000. (With
  \<open>c = 3\<close> and \<open>N = 7\<close>: three files, row counts \<open>[3, 3, 1]\<close>, suffixes 0, 1, 2.)
\<close>

theorem split_row_counts:
  assumes c: "0 < c" and op: "\<forall>p. openable p"
    and it: "Iterator_init (reader src) = Inr it"
    and rd: "source psrc = Some rows"
  shows "(\<exists>files. Rewrite_v2b openable reader c timestep src dst = Some (Inr files) \<and>
            map fst files = map (\<lambda>k. dst @ ''.'' @ to_string (int k)) [0..<length files] \<and>
            map (row_count \<circ> snd) files =
              replicate (nat (m_n it) div nat c) (nat c) @
              (if nat (m_n it) mod nat c = 0 then [] else [nat (m_n it) mod nat c]) \<and>
            sum_list (map (row_count \<circ> snd) files) = nat (m_n it) \<and>
            concat (map snd files) = iter_rows timestep 0 (SeekToFirst it)) \<and>
         (\<exists>files. Rewrite_repack openable source c psrc = Some (Inr files) \<and>
            map fst files = map (\<lambda>k. psrc @ ''.'' @ to_string (int k)) [0..<length files] \<and>
            map (row_count \<circ> snd) files =
              replicate (length rows div nat c) (nat c) @
              (if length rows mod nat c = 0 then [] else [length rows mod nat c]) \<and>
            sum_list (map (row_count \<circ> snd) files) = length rows \<and>
            concat (map snd files) = map enc_row rows) \<and>
         ceiling_v2b = 25000000 \<and> ceiling_repack = 31250000"
proof (intro conjI)
  let ?evs = "iter_rows timestep 0 (SeekToFirst it)"
  have len: "length ?evs = nat (m_n it)" by (rule length_iter_rows_first)
  have rows: "\<forall>ev \<in> set ?evs. is_row ev" by (blast intro: is_row_iter_rows)
  show "\<exists>files. Rewrite_v2b openable reader c timestep src dst = Some (Inr files) \<and>
            map fst files = map (\<lambda>k. dst @ ''.'' @ to_string (int k)) [0..<length files] \<and>
            map (row_count \<circ> snd) files =
              replicate (nat (m_n it) div nat c) (nat c) @
              (if nat (m_n it) mod nat c = 0 then [] else [nat (m_n it) mod nat c]) \<and>
            sum_list (map (row_count \<circ> snd) files) = nat (m_n it) \<and>
            concat (map snd files) = iter_rows timestep 0 (SeekToFirst it)"
    using Rewrite_v2b_chunks [where reader = reader and src = src, OF c op it, of timestep dst]
      split_files_props [where dst = dst and evs = ?evs, OF c rows, unfolded len]
    by (intro exI [of _ "numbered dst 0 (chunks (nat c) ?evs)"] conjI) assumption+
  let ?evs' = "map enc_row rows"
  have rows': "\<forall>ev \<in> set ?evs'. is_row ev" by auto
  show "\<exists>files. Rewrite_repack openable source c psrc = Some (Inr files) \<and>
            map fst files = map (\<lambda>k. psrc @ ''.'' @ to_string (int k)) [0..<length files] \<and>
            map (row_count \<circ> snd) files =
              replicate (length rows div nat c) (nat c) @
              (if length rows mod nat c = 0 then [] else [length rows mod nat c]) \<and>
            sum_list (map (row_count \<circ> snd) files) = length rows \<and>
            concat (map snd files) = map enc_row rows"
    using Rewrite_repack_chunks [where source = source and src = psrc, OF c op rd]
      split_files_props [where dst = psrc and evs = ?evs', OF c rows', unfolded length_map]
    by (intro exI [of _ "numbered psrc 0 (chunks (nat c) ?evs')"] conjI) assumption+
  show "ceiling_v2b = 25000000" by (simp add: ceiling_v2b_def)
  show "ceiling_repack = 31250000" by (simp add: ceiling_repack_def)
qed

lemma to_string_digits: "to_string 0 = ''0''" "to_string 1 = ''1''" "to_string 2 = ''2''"
  by (simp_all add: to_string_def to_string_nat.simps digit_char_def)

lemma upt_3: "[0..<3] = [0, 1, 2]"
  by (simp add: numeral_3_eq_3)

text \<open>Ceiling 3 and 7 rows: files \<open>.0\<close>, \<open>.1\<close>, \<open>.2\<close> with 3, 3 and 1 rows, in both programs.\<close>

theorem split_row_counts_witness:
  "(\<exists>files.
      Rewrite_v2b (\<lambda>p. True)
        (\<lambda>p. \<lparr>NumberOfPoints = 7,
                PointData = (\<lambda>name. if name = ''v02'' \<or> name = ''v03''
                                      then Some (replicate 7 (FFinite False 0 (- 149))) else None),
                FieldData = (\<lambda>name. None), Extent = [], Origin = [], Spacing = []\<rparr>)
        3 5 ''a.vti'' ''a.parquet'' = Some (Inr files) \<and>
      map fst files = [''a.parquet.0'', ''a.parquet.1'', ''a.parquet.2''] \<and>
      map (row_count \<circ> snd) files = [3, 3, 1]) \<and>
   (\<exists>files.
      Rewrite_repack (\<lambda>p. True)
        (\<lambda>p. Some (map (\<lambda>j. (5::int, int j, FFinite False 0 (- 149), FFinite False 0 (- 149))) [0..<7]))
        3 ''a.parquet'' = Some (Inr files) \<and>
      map fst files = [''a.parquet.0'', ''a.parquet.1'', ''a.parquet.2''] \<and>
      map (row_count \<circ> snd) files = [3, 3, 1])"
proof -
  let ?z = "FFinite False 0 (- 149)"
  let ?img = "\<lparr>NumberOfPoints = 7,
                PointData = (\<lambda>name. if name = ''v02'' \<or> name = ''v03''
                                      then Some (replicate 7 ?z) else None),
                FieldData = (\<lambda>name. None), Extent = [], Origin = [], Spacing = []\<rparr>"
  let ?rows = "map (\<lambda>j. (5::int, int j, ?z, ?z)) [0..<7]"
  let ?it = "\<lparr>m_n = 7, m_v02 = replicate 7 ?z, m_v03 = replicate 7 ?z, m_i = 0\<rparr>"
  have c: "(0::int) < 3" by simp
  have op: "\<forall>p::string. (\<lambda>p. True) p" by simp
  have it: "Iterator_init ((\<lambda>p. ?img) ''a.vti'') = Inr ?it"
    by (simp add: Iterator_init_def GET_POINTER_def to_int32_def)
  have rd: "(\<lambda>p::string. Some ?rows) ''a.parquet'' = Some ?rows" by simp
  note T = split_row_counts [where c = 3 and openable = "\<lambda>p. True" and reader = "\<lambda>p. ?img"
      and src = "''a.vti''" and it = ?it and source = "\<lambda>p. Some ?rows" and psrc = "''a.parquet''"
      and rows = ?rows and timestep = 5 and dst = "''a.parquet''", OF c op it rd]
  have r: "replicate 2 (3::nat) = [3, 3]" by (simp add: numeral_2_eq_2)
  have cnt: "replicate (nat 7 div nat 3) (nat 3) @ (if nat 7 mod nat 3 = 0 then [] else [nat 7 mod nat 3]) = [3, 3, 1::nat]"
    by (simp add: numeral_2_eq_2)
  have cnt': "replicate (length ?rows div nat 3) (nat 3) @ (if length ?rows mod nat 3 = 0 then [] else [length ?rows mod nat 3]) = [3, 3, 1::nat]"
    by (simp add: numeral_2_eq_2)
  from T [THEN conjunct1] obtain fs where
    F: "Rewrite_v2b (\<lambda>p. True) (\<lambda>p. ?img) 3 5 ''a.vti'' ''a.parquet'' = Some (Inr fs) \<and>
        map fst fs = map (\<lambda>k. ''a.parquet'' @ ''.'' @ to_string (int k)) [0..<length fs] \<and>
        map (row_count \<circ> snd) fs =
          replicate (nat (m_n ?it) div nat 3) (nat 3) @
          (if nat (m_n ?it) mod nat 3 = 0 then [] else [nat (m_n ?it) mod nat 3]) \<and>
        sum_list (map (row_count \<circ> snd) fs) = nat (m_n ?it) \<and>
        concat (map snd fs) = iter_rows 5 0 (SeekToFirst ?it)" ..
  note f1 = F [THEN conjunct1] and f2 = F [THEN conjunct2, THEN conjunct1]
  have f3: "map (row_count \<circ> snd) fs = [3, 3, 1]"
    using F [THEN conjunct2, THEN conjunct2, THEN conjunct1] cnt by simp
  from f3 have "length (map (row_count \<circ> snd) fs) = 3" by simp
  then have l: "length fs = 3" by simp
  have f2': "map fst fs = [''a.parquet.0'', ''a.parquet.1'', ''a.parquet.2'']"
    using f2 unfolding l upt_3 by (simp add: to_string_digits)
  from T [THEN conjunct2, THEN conjunct1] obtain gs where
    G: "Rewrite_repack (\<lambda>p. True) (\<lambda>p. Some ?rows) 3 ''a.parquet'' = Some (Inr gs) \<and>
        map fst gs = map (\<lambda>k. ''a.parquet'' @ ''.'' @ to_string (int k)) [0..<length gs] \<and>
        map (row_count \<circ> snd) gs =
          replicate (length ?rows div nat 3) (nat 3) @
          (if length ?rows mod nat 3 = 0 then [] else [length ?rows mod nat 3]) \<and>
        sum_list (map (row_count \<circ> snd) gs) = length ?rows \<and>
        concat (map snd gs) = map enc_row ?rows" ..
  note g1 = G [THEN conjunct1] and g2 = G [THEN conjunct2, THEN conjunct1]
  have g3: "map (row_count \<circ> snd) gs = [3, 3, 1]"
    using G [THEN conjunct2, THEN conjunct2, THEN conjunct1] unfolding cnt' .
  from g3 have "length (map (row_count \<circ> snd) gs) = 3" by simp
  then have l': "length gs = 3" by simp
  have g2': "map fst gs = [''a.parquet.0'', ''a.parquet.1'', ''a.parquet.2'']"
    using g2 unfolding l' upt_3 by (simp add: to_string_digits)
  show ?thesis
    by (intro conjI exI [of _ fs] exI [of _ gs] f1 f2' f3 g1 g2' g3)
qed

section \<open>Output names and the repack round trip\<close>

lemma chunks_ne: "0 < c \<Longrightarrow> xs \<noteq> [] \<Longrightarrow> chunks c xs \<noteq> []"
  by (simp add: chunks_step)

lemma chunks_single: "0 < length xs \<Longrightarrow> length xs \<le> c \<Longrightarrow> chunks c xs = [xs]"
  by (subst chunks.simps) (cases xs; auto)

lemma hd_numbered: "chs \<noteq> [] \<Longrightarrow> fst (hd (numbered base 0 chs)) = base @ ''.0''"
  by (cases chs) (simp_all add: numbered_Cons to_string_0)

lemma iter_rows_first_ne: "0 < m_n it \<Longrightarrow> iter_rows t r (SeekToFirst it) \<noteq> []"
  using length_iter_rows_first [of t r it] by auto

text \<open>
  Claim C10. In the splitting converter and in the repack tool every output file is named
  by the base name, a dot and a zero-based index: the bare base name is never the name
  of an output; a stream that is not empty has a first file named base name plus
  \<open>.0\<close>; and a stream that fits under the ceiling yields that one file only.
\<close>

theorem split_names:
  assumes c: "0 < c" and op: "\<forall>p. openable p"
    and it: "Iterator_init (reader src) = Inr it"
    and rd: "source psrc = Some rows"
  shows "(\<exists>files. Rewrite_v2b openable reader c timestep src dst = Some (Inr files) \<and>
            map fst files = map (\<lambda>k. dst @ ''.'' @ to_string (int k)) [0..<length files] \<and>
            dst \<notin> set (map fst files) \<and>
            (0 < m_n it \<longrightarrow> files \<noteq> [] \<and> fst (hd files) = dst @ ''.0'') \<and>
            (0 < m_n it \<and> m_n it \<le> c \<longrightarrow> map fst files = [dst @ ''.0''])) \<and>
         (\<exists>files. Rewrite_repack openable source c psrc = Some (Inr files) \<and>
            map fst files = map (\<lambda>k. psrc @ ''.'' @ to_string (int k)) [0..<length files] \<and>
            psrc \<notin> set (map fst files) \<and>
            (rows \<noteq> [] \<longrightarrow> files \<noteq> [] \<and> fst (hd files) = psrc @ ''.0'') \<and>
            (rows \<noteq> [] \<and> int (length rows) \<le> c \<longrightarrow> map fst files = [psrc @ ''.0'']))"
proof (intro conjI)
  have c': "0 < nat c" using c by simp
  let ?evs = "iter_rows timestep 0 (SeekToFirst it)"
  let ?F = "numbered dst 0 (chunks (nat c) ?evs)"
  have len: "length ?evs = nat (m_n it)" by (rule length_iter_rows_first)
  have F: "Rewrite_v2b openable reader c timestep src dst = Some (Inr ?F)"
    by (rule Rewrite_v2b_chunks [where reader = reader and src = src, OF c op it])
  have n1: "map fst ?F = map (\<lambda>k. dst @ ''.'' @ to_string (int k)) [0..<length ?F]"
    by (simp add: map_fst_numbered length_numbered)
  have n2: "dst \<notin> set (map fst ?F)"
    using base_not_numbered [of dst 0 "chunks (nat c) ?evs"] by simp
  have n3: "0 < m_n it \<longrightarrow> ?F \<noteq> [] \<and> fst (hd ?F) = dst @ ''.0''"
  proof
    assume "0 < m_n it"
    then have "?evs \<noteq> []" by (rule iter_rows_first_ne)
    then have ne: "chunks (nat c) ?evs \<noteq> []" by (rule chunks_ne [OF c'])
    then have "?F \<noteq> []" using length_numbered [of dst 0 "chunks (nat c) ?evs"] by auto
    then show "?F \<noteq> [] \<and> fst (hd ?F) = dst @ ''.0''"
      using hd_numbered [OF ne] by simp
  qed
  have n4: "0 < m_n it \<and> m_n it \<le> c \<longrightarrow> map fst ?F = [dst @ ''.0'']"
  proof
    assume a: "0 < m_n it \<and> m_n it \<le> c"
    then have "0 < length ?evs" "length ?evs \<le> nat c" unfolding len by auto
    then have "chunks (nat c) ?evs = [?evs]" by (rule chunks_single)
    then show "map fst ?F = [dst @ ''.0'']"
      by (simp add: numbered_Cons to_string_0)
  qed
  show "\<exists>files. Rewrite_v2b openable reader c timestep src dst = Some (Inr files) \<and>
            map fst files = map (\<lambda>k. dst @ ''.'' @ to_string (int k)) [0..<length files] \<and>
            dst \<notin> set (map fst files) \<and>
            (0 < m_n it \<longrightarrow> files \<noteq> [] \<and> fst (hd files) = dst @ ''.0'') \<and>
            (0 < m_n it \<and> m_n it \<le> c \<longrightarrow> map fst files = [dst @ ''.0''])"
    by (intro exI [of _ ?F] conjI F n1 n2 n3 n4)
  let ?evs' = "map enc_row rows"
  let ?G = "numbered psrc 0 (chunks (nat c) ?evs')"
  have G: "Rewrite_repack openable source c psrc = Some (Inr ?G)"
    by (rule Rewrite_repack_chunks [where source = source and src = psrc, OF c op rd])
  have m1: "map fst ?G = map (\<lambda>k. psrc @ ''.'' @ to_string (int k)) [0..<length ?G]"
    by (simp add: map_fst_numbered length_numbered)
  have m2: "psrc \<notin> set (map fst ?G)"
    using base_not_numbered [of psrc 0 "chunks (nat c) ?evs'"] by simp
  have m3: "rows \<noteq> [] \<longrightarrow> ?G \<noteq> [] \<and> fst (hd ?G) = psrc @ ''.0''"
  proof
    assume "rows \<noteq> []"
    then have "?evs' \<noteq> []" by simp
    then have ne: "chunks (nat c) ?evs' \<noteq> []" by (rule chunks_ne [OF c'])
    then have "?G \<noteq> []" using length_numbered [of psrc 0 "chunks (nat c) ?evs'"] by auto
    then show "?G \<noteq> [] \<and> fst (hd ?G) = psrc @ ''.0''"
      using hd_numbered [OF ne] by simp
  qed
  have m4: "rows \<noteq> [] \<and> int (length rows) \<le> c \<longrightarrow> map fst ?G = [psrc @ ''.0'']"
  proof
    assume a: "rows \<noteq> [] \<and> int (length rows) \<le> c"
    then have "0 < length ?evs'" "length ?evs' \<le> nat c" by auto
    then have "chunks (nat c) ?evs' = [?evs']" by (rule chunks_single)
    then show "map fst ?G = [psrc @ ''.0'']"
      by (simp add: numbered_Cons to_string_0)
  qed
  show "\<exists>files. Rewrite_repack openable source c psrc = Some (Inr files) \<and>
            map fst files = map (\<lambda>k. psrc @ ''.'' @ to_string (int k)) [0..<length files] \<and>
            psrc \<notin> set (map fst files) \<and>
            (rows \<noteq> [] \<longrightarrow> files \<noteq> [] \<and> fst (hd files) = psrc @ ''.0'') \<and>
            (rows \<noteq> [] \<and> int (length rows) \<le> c \<longrightarrow> map fst files = [psrc @ ''.0''])"
    by (intro exI [of _ ?G] conjI G m1 m2 m3 m4)
qed

text \<open>Two rows under ceiling 3: the one output is named with the suffix \<open>.0\<close>, in both programs.\<close>

theorem split_names_witness:
  "(\<exists>files.
      Rewrite_v2b (\<lambda>p. True)
        (\<lambda>p. \<lparr>NumberOfPoints = 2,
                PointData = (\<lambda>name. if name = ''v02'' \<or> name = ''v03''
                                      then Some (replicate 2 (FFinite False 0 (- 149))) else None),
                FieldData = (\<lambda>name. None), Extent = [], Origin = [], Spacing = []\<rparr>)
        3 5 ''a.vti'' ''a.parquet'' = Some (Inr files) \<and>
      map fst files = [''a.parquet.0''] \<and> ''a.parquet'' \<notin> set (map fst files)) \<and>
   (\<exists>files.
      Rewrite_repack (\<lambda>p. True)
        (\<lambda>p. Some [(5::int, 0::int, FFinite False 0 (- 149), FFinite False 0 (- 149)),
                     (5, 1, FFinite False 0 (- 149), FFinite False 0 (- 149))])
        3 ''a.parquet'' = Some (Inr files) \<and>
      map fst files = [''a.parquet.0''] \<and> ''a.parquet'' \<notin> set (map fst files))"
proof -
  let ?z = "FFinite False 0 (- 149)"
  let ?img = "\<lparr>NumberOfPoints = 2,
                PointData = (\<lambda>name. if name = ''v02'' \<or> name = ''v03''
                                      then Some (replicate 2 ?z) else None),
                FieldData = (\<lambda>name. None), Extent = [], Origin = [], Spacing = []\<rparr>"
  let ?rows = "[(5::int, 0::int, ?z, ?z), (5, 1, ?z, ?z)]"
  let ?it = "\<lparr>m_n = 2, m_v02 = replicate 2 ?z, m_v03 = replicate 2 ?z, m_i = 0\<rparr>"
  have c: "(0::int) < 3" by simp
  have op: "\<forall>p::string. (\<lambda>p. True) p" by simp
  have it: "Iterator_init ((\<lambda>p. ?img) ''a.vti'') = Inr ?it"
    by (simp add: Iterator_init_def GET_POINTER_def to_int32_def)
  have rd: "(\<lambda>p::string. Some ?rows) ''a.parquet'' = Some ?rows" by simp
  note T = split_names [where c = 3 and openable = "\<lambda>p. True" and reader = "\<lambda>p. ?img"
      and src = "''a.vti''" and it = ?it and source = "\<lambda>p. Some ?rows" and psrc = "''a.parquet''"
      and rows = ?rows and timestep = 5 and dst = "''a.parquet''", OF c op it rd]
  from T [THEN conjunct1] obtain fs where
    F: "Rewrite_v2b (\<lambda>p. True) (\<lambda>p. ?img) 3 5 ''a.vti'' ''a.parquet'' = Some (Inr fs) \<and>
        map fst fs = map (\<lambda>k. ''a.parquet'' @ ''.'' @ to_string (int k)) [0..<length fs] \<and>
        ''a.parquet'' \<notin> set (map fst fs) \<and>
        (0 < m_n ?it \<longrightarrow> fs \<noteq> [] \<and> fst (hd fs) = ''a.parquet'' @ ''.0'') \<and>
        (0 < m_n ?it \<and> m_n ?it \<le> 3 \<longrightarrow> map fst fs = [''a.parquet'' @ ''.0''])" ..
  note f1 = F [THEN conjunct1] and f3 = F [THEN conjunct2, THEN conjunct2, THEN conjunct1]
  have f2: "map fst fs = [''a.parquet.0'']"
    using F [THEN conjunct2, THEN conjunct2, THEN conjunct2, THEN conjunct2] by simp
  from T [THEN conjunct2] obtain gs where
    G: "Rewrite_repack (\<lambda>p. True) (\<lambda>p. Some ?rows) 3 ''a.parquet'' = Some (Inr gs) \<and>
        map fst gs = map (\<lambda>k. ''a.parquet'' @ ''.'' @ to_string (int k)) [0..<length gs] \<and>
        ''a.parquet'' \<notin> set (map fst gs) \<and>
        (?rows \<noteq> [] \<longrightarrow> gs \<noteq> [] \<and> fst (hd gs) = ''a.parquet'' @ ''.0'') \<and>
        (?rows \<noteq> [] \<and> int (length ?rows) \<le> 3 \<longrightarrow> map fst gs = [''a.parquet'' @ ''.0''])" ..
  note g1 = G [THEN conjunct1] and g3 = G [THEN conjunct2, THEN conjunct2, THEN conjunct1]
  have g2: "map fst gs = [''a.parquet.0'']"
    using G [THEN conjunct2, THEN conjunct2, THEN conjunct2, THEN conjunct2] by simp
  show ?thesis
    by (intro conjI exI [of _ fs] exI [of _ gs] f1 f2 f3 g1 g2 g3)
qed

lemma read_rows_enc: "read_rows (map enc_row rows) = rows"
  by (induction rows) (simp_all add: read_rows_def List.map_filter_simps)

text \<open>
  Claim C4. The repack tool reads the rows of its input in file order and writes each
  with the four values it read, unchanged: its output files, read one after the other,
  decode to the input rows, in order; and writing the rows read back, with the same
  ceiling, gives the same files again.
\<close>

theorem repack_round_trip:
  assumes c: "0 < c" and op: "\<forall>p. openable p" and rd: "source psrc = Some rows"
  shows "\<exists>files. Rewrite_repack openable source c psrc = Some (Inr files) \<and>
           concat (map snd files) = map enc_row rows \<and>
           map decode_row (concat (map snd files)) = map Some rows \<and>
           read_rows (concat (map snd files)) = rows \<and>
           Rewrite_repack openable (\<lambda>p. Some (read_rows (concat (map snd files)))) c psrc =
             Some (Inr files)"
proof -
  have c': "0 < nat c" using c by simp
  let ?G = "numbered psrc 0 (chunks (nat c) (map enc_row rows))"
  have G: "Rewrite_repack openable source c psrc = Some (Inr ?G)"
    by (rule Rewrite_repack_chunks [where source = source and src = psrc, OF c op rd])
  have cc: "concat (map snd ?G) = map enc_row rows"
    by (simp add: map_snd_numbered concat_chunks [OF c'])
  have d: "map decode_row (concat (map snd ?G)) = map Some rows"
    unfolding cc by simp
  have r: "read_rows (concat (map snd ?G)) = rows"
    unfolding cc by (rule read_rows_enc)
  have "(\<lambda>p::string. Some rows) psrc = Some rows" by simp
  from Rewrite_repack_chunks [where source = "\<lambda>p. Some rows" and src = psrc, OF c op this]
  have again: "Rewrite_repack openable (\<lambda>p. Some (read_rows (concat (map snd ?G)))) c psrc = Some (Inr ?G)"
    unfolding r .
  show ?thesis
    by (intro exI [of _ ?G] conjI G cc d r again)
qed

text \<open>Three rows with distinct values under ceiling 2: the files decode to the three rows.\<close>

theorem repack_round_trip_witness:
  "\<exists>files.
     Rewrite_repack (\<lambda>p. True)
       (\<lambda>p. Some [(5, 0, FFinite False 8388608 (- 23), FFinite True 12582912 (- 23)),
                    (5, 1, FFinite False 0 (- 149), FNaN),
                    (6, 0, FInf True, FFinite False 1 (- 149))])
       2 ''a.parquet'' = Some (Inr files) \<and>
     map decode_row (concat (map snd files)) =
       [Some (5, 0, FFinite False 8388608 (- 23), FFinite True 12582912 (- 23)),
        Some (5, 1, FFinite False 0 (- 149), FNaN),
        Some (6, 0, FInf True, FFinite False 1 (- 149))]"
proof -
  let ?rows = "[(5::int, 0::int, FFinite False 8388608 (- 23), FFinite True 12582912 (- 23)),
                (5, 1, FFinite False 0 (- 149), FNaN),
                (6, 0, FInf True, FFinite False 1 (- 149))]"
  have c: "(0::int) < 2" by simp
  have op: "\<forall>p::string. (\<lambda>p. True) p" by simp
  have rd: "(\<lambda>p::string. Some ?rows) ''a.parquet'' = Some ?rows" by simp
  from repack_round_trip [where c = 2 and openable = "\<lambda>p. True" and source = "\<lambda>p. Some ?rows"
      and psrc = "''a.parquet''" and rows = ?rows, OF c op rd]
  obtain gs where
    G: "Rewrite_repack (\<lambda>p. True) (\<lambda>p. Some ?rows) 2 ''a.parquet'' = Some (Inr gs) \<and>
        concat (map snd gs) = map enc_row ?rows \<and>
        map decode_row (concat (map snd gs)) = map Some ?rows \<and>
        read_rows (concat (map snd gs)) = ?rows \<and>
        Rewrite_repack (\<lambda>p. True) (\<lambda>p. Some (read_rows (concat (map snd gs)))) 2 ''a.parquet'' =
          Some (Inr gs)" ..
  note g1 = G [THEN conjunct1]
  have g2: "map decode_row (concat (map snd gs)) =
       [Some (5, 0, FFinite False 8388608 (- 23), FFinite True 12582912 (- 23)),
        Some (5, 1, FFinite False 0 (- 149), FNaN),
        Some (6, 0, FInf True, FFinite False 1 (- 149))]"
    using G [THEN conjunct2, THEN conjunct2, THEN conjunct1] by simp
  show ?thesis
    by (intro exI [of _ gs] conjI g1 g2)
qed

section \<open>Row ids\<close>

lemma row_groups_ne [simp]: "row_groups evs \<noteq> []"
  by (induction evs rule: row_groups.induct) simp_all

lemma row_groups_snoc_Row:
  "row_groups (evs @ [Row cs]) = butlast (row_groups evs) @ [last (row_groups evs) @ [Row cs]]"
proof (induction evs rule: row_groups.induct)
  case 1
  show ?case by simp
next
  case (2 evs)
  then show ?case by simp
next
  case (3 ds evs)
  obtain g gs where e: "row_groups evs = g # gs"
    by (cases "row_groups evs") simp_all
  show ?case using 3 by (cases gs) (simp_all add: e)
qed

lemma row_groups_snoc_End: "row_groups (evs @ [EndRowGroup]) = row_groups evs @ [[]]"
proof (induction evs rule: row_groups.induct)
  case 1
  show ?case by simp
next
  case (2 evs)
  then show ?case by simp
next
  case (3 ds evs)
  obtain g gs where e: "row_groups evs = g # gs"
    by (cases "row_groups evs") simp_all
  show ?case using 3 by (simp add: e)
qed

lemma rowid_inv_init: "rowid_inv ParquetWriter_v2a_init"
  by (simp add: rowid_inv_def ParquetWriter_v2a_init_def)

lemma rowid_inv_Flush: "rowid_inv w \<Longrightarrow> rowid_inv (FlushRowGroup w)"
  by (simp add: rowid_inv_def FlushRowGroup_def)

lemma rowid_inv_Append:
  assumes "rowid_inv w"
  shows "rowid_inv (Append_v2a w t a b)"
proof -
  obtain Gb gl where G: "row_groups (m_writer w) = Gb @ [gl]"
    using row_groups_ne [of "m_writer w"] by (cases "row_groups (m_writer w)" rule: rev_cases) auto
  show ?thesis
  proof (cases "m_pending_rgflush w")
    case True
    then have r: "m_rowid w = 0" using assms by (simp add: rowid_inv_def)
    have tr: "m_writer (Append_v2a w t a b) =
        (m_writer w @ [EndRowGroup]) @ [Row [Int32 t, Int32 0, Float (quantize a), Float (quantize b)]]"
      using True r by (simp add: Append_v2a_def)
    have rg: "row_groups (m_writer (Append_v2a w t a b)) =
        Gb @ [gl, [Row [Int32 t, Int32 0, Float (quantize a), Float (quantize b)]]]"
      unfolding tr row_groups_snoc_Row row_groups_snoc_End G by (simp add: butlast_append)
    have p: "\<not> m_pending_rgflush (Append_v2a w t a b)" "m_rowid (Append_v2a w t a b) = 1"
      using True r by (simp_all add: Append_v2a_def)
    show ?thesis
      using assms p unfolding rowid_inv_def rg G
      by (cases Gb) auto
  next
    case False
    then have r: "m_rowid w = int (length gl)" using assms by (simp add: rowid_inv_def G)
    have tr: "m_writer (Append_v2a w t a b) =
        m_writer w @ [Row [Int32 t, Int32 (int (length gl)), Float (quantize a), Float (quantize b)]]"
      using False r by (simp add: Append_v2a_def)
    have rg: "row_groups (m_writer (Append_v2a w t a b)) =
        Gb @ [gl @ [Row [Int32 t, Int32 (int (length gl)), Float (quantize a), Float (quantize b)]]]"
      unfolding tr row_groups_snoc_Row G by simp
    have p: "\<not> m_pending_rgflush (Append_v2a w t a b)" "m_rowid (Append_v2a w t a b) = int (length gl) + 1"
      using False r by (simp_all add: Append_v2a_def)
    show ?thesis
      using assms p unfolding rowid_inv_def rg G
      by (cases Gb) auto
  qed
qed

lemma rowid_inv_run_calls: "rowid_inv w \<Longrightarrow> rowid_inv (run_calls w calls)"
proof (induction calls arbitrary: w)
  case Nil
  then show ?case by simp
next
  case (Cons call calls)
  then show ?case
    by (cases call) (simp_all add: rowid_inv_Append rowid_inv_Flush)
qed

lemma chunks_nth: "0 < c \<Longrightarrow> k < length (chunks c xs) \<Longrightarrow> chunks c xs ! k = take c (drop (k * c) xs)"
proof (induction k arbitrary: xs)
  case 0
  then have "xs \<noteq> []" by auto
  then show ?case using 0 by (simp add: chunks_step)
next
  case (Suc k)
  then have ne: "xs \<noteq> []" by auto
  then have ch: "chunks c xs = take c xs # chunks c (drop c xs)"
    using Suc.prems by (simp add: chunks_step)
  have "k < length (chunks c (drop c xs))" using Suc.prems ch by simp
  from Suc.IH [OF Suc.prems(1) this] show ?case
    unfolding ch by (simp add: add.commute)
qed

lemma map_take_drop_upt:
  assumes "map f xs = map g [0..<length xs]"
  shows "map f (take c (drop d xs)) = map (\<lambda>j. g (d + j)) [0..<length (take c (drop d xs))]"
proof (rule nth_equalityI)
  show "length (map f (take c (drop d xs))) = length (map (\<lambda>j. g (d + j)) [0..<length (take c (drop d xs))])"
    by simp
next
  fix i assume "i < length (map f (take c (drop d xs)))"
  then have i: "i < c" "d + i < length xs" by auto
  have "f (xs ! (d + i)) = map f xs ! (d + i)" using i by simp
  also have "\<dots> = g (d + i)" unfolding assms using i by simp
  finally have "f (xs ! (d + i)) = g (d + i)" .
  moreover have "i < min (length xs - d) c" using i by simp
  ultimately show "map f (take c (drop d xs)) ! i = map (\<lambda>j. g (d + j)) [0..<length (take c (drop d xs))] ! i"
    using i by simp
qed

lemma rowid_inv_Rewrite_loop: "rowid_inv w \<Longrightarrow> rowid_inv (Rewrite_loop_v2a t w it)"
proof (induction t w it rule: Rewrite_loop_v2a.induct)
  case (1 t w it)
  show ?case
  proof (cases "Valid it")
    case True
    then show ?thesis
      using 1 by (subst Rewrite_loop_v2a.simps) (simp add: rowid_inv_Append)
  next
    case False
    then show ?thesis
      using 1 by (subst Rewrite_loop_v2a.simps) simp
  qed
qed

lemma rowid_inv_Rewrite: "rowid_inv w \<Longrightarrow> Rewrite_v2a reader src t w = Inr w' \<Longrightarrow> rowid_inv w'"
  by (auto simp: Rewrite_v2a_def rowid_inv_Flush rowid_inv_Rewrite_loop split: sum.splits)

lemma rowid_inv_Rewrite_all:
  "rowid_inv w \<Longrightarrow> Rewrite_all_v2a reader work w = Inr w' \<Longrightarrow> rowid_inv w'"
proof (induction work arbitrary: w)
  case Nil
  then show ?case by simp
next
  case (Cons kv work)
  then show ?case
    by (auto split: sum.splits dest: rowid_inv_Rewrite)
qed

lemma rowid_inv_ProcessDir:
  assumes "ProcessDir_v2a openable reader dir indir outdir = Inr (name, evs)"
  shows "map (map rowid_of) (row_groups evs) =
           map (\<lambda>g. map (\<lambda>j. Some (int j)) [0..<length g]) (row_groups evs) \<and>
         [] \<notin> set (tl (row_groups evs))"
proof -
  from assms obtain work w where
    "Rewrite_all_v2a reader work ParquetWriter_v2a_init = Inr w" and "evs = m_writer w"
    by (auto simp: ProcessDir_v2a_def Finish_def split: option.splits sum.splits prod.splits if_splits)
  then have "rowid_inv w" and "evs = m_writer w"
    using rowid_inv_Rewrite_all [OF rowid_inv_init] by auto
  then show ?thesis by (simp add: rowid_inv_def)
qed

lemma rowid_of_concat_files:
  assumes c: "0 < c"
  shows "map rowid_of (concat (map snd (numbered dst 0 (chunks (nat c) (iter_rows t 0 (SeekToFirst it)))))) =
           map (\<lambda>j. Some (int j)) [0..<nat (m_n it)]"
proof -
  have c': "0 < nat c" using c by simp
  show ?thesis
    using rowid_of_iter_rows [of t 0 "SeekToFirst it"]
    by (simp add: map_snd_numbered concat_chunks [OF c'] length_iter_rows_first)
qed

lemma rowid_of_file_k:
  assumes c: "0 < c" and k: "k < length (numbered dst 0 (chunks (nat c) (iter_rows t 0 (SeekToFirst it))))"
  shows "map rowid_of (snd (numbered dst 0 (chunks (nat c) (iter_rows t 0 (SeekToFirst it))) ! k)) =
           map (\<lambda>j. Some (int (k * nat c + j)))
             [0..<length (snd (numbered dst 0 (chunks (nat c) (iter_rows t 0 (SeekToFirst it))) ! k))]"
proof -
  let ?R = "iter_rows t 0 (SeekToFirst it)"
  have c': "0 < nat c" using c by simp
  have k': "k < length (chunks (nat c) ?R)" using k by (simp add: length_numbered)
  have s: "snd (numbered dst 0 (chunks (nat c) ?R) ! k) = chunks (nat c) ?R ! k"
    using k' nth_map [of k "numbered dst 0 (chunks (nat c) ?R)" snd]
    by (simp add: map_snd_numbered length_numbered)
  have n: "chunks (nat c) ?R ! k = take (nat c) (drop (k * nat c) ?R)"
    by (rule chunks_nth [OF c' k'])
  have "map rowid_of ?R = map (\<lambda>j. Some (int j)) [0..<length ?R]"
    using rowid_of_iter_rows [of t 0 "SeekToFirst it"] by simp
  from map_take_drop_upt [OF this, of "nat c" "k * nat c"]
  show ?thesis unfolding s n .
qed

text \<open>
  Claim C2. Per-group policy (vti2pqtv2a): whatever calls of \<^verbatim>\<open>Append\<close> and
  \<^verbatim>\<open>FlushRowGroup\<close> a fresh writer receives, the row ids of every row group of its
  stream are \<open>0, 1, 2, ...\<close>: each row's id is the id before it plus one, a flush sets the
  counter to 0, and the first row of the next group has id 0; so it is for the file that
  \<^verbatim>\<open>ProcessDir\<close> writes. Continuous policy (the splitting converter): the row ids of
  the files of one source, read one after the other, are \<open>0, 1, ..., N - 1\<close>; the file with
  index \<open>k\<close> starts at the id \<open>k * c\<close>, where the file before it stopped.
\<close>

theorem rowid_policies:
  assumes c: "0 < c" and op: "\<forall>p. openable p"
    and it: "Iterator_init (reader src) = Inr it"
    and pd: "ProcessDir_v2a openable' reader' dir indir outdir = Inr (name, evs)"
  shows "map (map rowid_of) (row_groups (m_writer (run_calls ParquetWriter_v2a_init calls))) =
           map (\<lambda>g. map (\<lambda>j. Some (int j)) [0..<length g])
             (row_groups (m_writer (run_calls ParquetWriter_v2a_init calls))) \<and>
         m_rowid (FlushRowGroup w) = 0 \<and>
         map (map rowid_of) (row_groups evs) =
           map (\<lambda>g. map (\<lambda>j. Some (int j)) [0..<length g]) (row_groups evs) \<and>
         (\<exists>files. Rewrite_v2b openable reader c timestep src dst = Some (Inr files) \<and>
            map rowid_of (concat (map snd files)) = map (\<lambda>j. Some (int j)) [0..<nat (m_n it)] \<and>
            (\<forall>k<length files. map rowid_of (snd (files ! k)) =
               map (\<lambda>j. Some (int (k * nat c + j))) [0..<length (snd (files ! k))]))"
proof (intro conjI)
  have "rowid_inv (run_calls ParquetWriter_v2a_init calls)"
    by (rule rowid_inv_run_calls [OF rowid_inv_init])
  then show "map (map rowid_of) (row_groups (m_writer (run_calls ParquetWriter_v2a_init calls))) =
           map (\<lambda>g. map (\<lambda>j. Some (int j)) [0..<length g])
             (row_groups (m_writer (run_calls ParquetWriter_v2a_init calls)))"
    by (simp add: rowid_inv_def)
  show "m_rowid (FlushRowGroup w) = 0" by (simp add: FlushRowGroup_def)
  show "map (map rowid_of) (row_groups evs) =
           map (\<lambda>g. map (\<lambda>j. Some (int j)) [0..<length g]) (row_groups evs)"
    using rowid_inv_ProcessDir [OF pd] by simp
  let ?F = "numbered dst 0 (chunks (nat c) (iter_rows timestep 0 (SeekToFirst it)))"
  have F: "Rewrite_v2b openable reader c timestep src dst = Some (Inr ?F)"
    by (rule Rewrite_v2b_chunks [where reader = reader and src = src, OF c op it])
  have a: "map rowid_of (concat (map snd ?F)) = map (\<lambda>j. Some (int j)) [0..<nat (m_n it)]"
    by (rule rowid_of_concat_files [OF c])
  have b: "\<forall>k<length ?F. map rowid_of (snd (?F ! k)) =
               map (\<lambda>j. Some (int (k * nat c + j))) [0..<length (snd (?F ! k))]"
    using rowid_of_file_k [OF c] by blast
  show "\<exists>files. Rewrite_v2b openable reader c timestep src dst = Some (Inr files) \<and>
            map rowid_of (concat (map snd files)) = map (\<lambda>j. Some (int j)) [0..<nat (m_n it)] \<and>
            (\<forall>k<length files. map rowid_of (snd (files ! k)) =
               map (\<lambda>j. Some (int (k * nat c + j))) [0..<length (snd (files ! k))])"
    by (intro exI [of _ ?F] conjI F a b)
qed

text \<open>
  Two appends, a flush and an append: row ids 0, 1 and then 0 again. A directory of two
  one-point snapshots: one row with id 0 in each of the two row groups. Four rows under
  ceiling 3: the ids 0, 1, 2 and 3 over the two files.
\<close>

theorem rowid_policies_witness:
  "map (map rowid_of) (row_groups (m_writer (run_calls ParquetWriter_v2a_init
      [CallAppend 1 (FFinite False 0 (- 149)) (FFinite False 0 (- 149)),
       CallAppend 1 (FFinite False 0 (- 149)) (FFinite False 0 (- 149)),
       CallFlushRowGroup,
       CallAppend 2 (FFinite False 0 (- 149)) (FFinite False 0 (- 149))]))) =
     [[Some 0, Some 1], [Some 0]] \<and>
   map (map rowid_of) (row_groups
      [Row [Int32 2, Int32 0, Float (FFinite False 0 (- 149)), Float (FFinite False 0 (- 149))],
       EndRowGroup,
       Row [Int32 7, Int32 0, Float (FFinite False 0 (- 149)), Float (FFinite False 0 (- 149))]]) =
     [[Some 0], [Some 0]] \<and>
   (\<exists>files.
      Rewrite_v2b (\<lambda>p. True)
        (\<lambda>p. \<lparr>NumberOfPoints = 4,
                PointData = (\<lambda>name. if name = ''v02'' \<or> name = ''v03''
                                      then Some (replicate 4 (FFinite False 0 (- 149))) else None),
                FieldData = (\<lambda>name. None), Extent = [], Origin = [], Spacing = []\<rparr>)
        3 5 ''a.vti'' ''a.parquet'' = Some (Inr files) \<and>
      map rowid_of (concat (map snd files)) = [Some 0, Some 1, Some 2, Some 3])"
proof -
  let ?z = "FFinite False 0 (- 149)"
  let ?img4 = "\<lparr>NumberOfPoints = 4,
                PointData = (\<lambda>name. if name = ''v02'' \<or> name = ''v03''
                                      then Some (replicate 4 ?z) else None),
                FieldData = (\<lambda>name. None), Extent = [], Origin = [], Spacing = []\<rparr>"
  let ?img1 = "\<lparr>NumberOfPoints = 1,
                PointData = (\<lambda>name. if name = ''v02'' \<or> name = ''v03''
                                      then Some [?z] else None),
                FieldData = (\<lambda>name. None), Extent = [], Origin = [], Spacing = []\<rparr>"
  let ?it = "\<lparr>m_n = 4, m_v02 = replicate 4 ?z, m_v03 = replicate 4 ?z, m_i = 0\<rparr>"
  let ?calls = "[CallAppend 1 ?z ?z, CallAppend 1 ?z ?z, CallFlushRowGroup, CallAppend 2 ?z ?z]"
  let ?dir = "Some [\<lparr>d_type = DT_REG, d_name = ''x_00007.vti''\<rparr>,
                    \<lparr>d_type = DT_REG, d_name = ''x_00002.vti''\<rparr>]"
  let ?evs = "[Row [Int32 2, Int32 0, Float ?z, Float ?z], EndRowGroup,
               Row [Int32 7, Int32 0, Float ?z, Float ?z]]"
  have q0: "quantize ?z = ?z"
    by (simp add: quantize_def float_of_int_def round_to_float32_def floor_log2_def rne_div_def
        bitlen.simps Let_def)
  have c: "(0::int) < 3" by simp
  have op: "\<forall>p::string. (\<lambda>p. True) p" by simp
  have it: "Iterator_init ((\<lambda>p. ?img4) ''a.vti'') = Inr ?it"
    by (simp add: Iterator_init_def GET_POINTER_def to_int32_def)
  have pd: "ProcessDir_v2a (\<lambda>p. True) (\<lambda>p. ?img1) ?dir ''in'' ''out'' = Inr (''out/x.parquet'', ?evs)"
    by (simp add: ProcessDir_v2a_def StringEndWith_def substr_def size_t_sub_def isdigit_def
        isspace_def Rewrite_v2a_def Iterator_init_def GET_POINTER_def to_int32_def SeekToFirst_def
        Rewrite_loop_v2a.simps Valid_def Next_def v02_def v03_def Append_v2a_def FlushRowGroup_def
        ParquetWriter_v2a_init_def Finish_def q0)
  note T = rowid_policies [where c = 3 and openable = "\<lambda>p. True" and reader = "\<lambda>p. ?img4"
      and src = "''a.vti''" and it = ?it and openable' = "\<lambda>p. True" and reader' = "\<lambda>p. ?img1"
      and dir = ?dir and indir = "''in''" and outdir = "''out''" and name = "''out/x.parquet''"
      and evs = ?evs and calls = ?calls and timestep = 5 and dst = "''a.parquet''",
      OF c op it pd]
  have w: "m_writer (run_calls ParquetWriter_v2a_init ?calls) =
      [Row [Int32 1, Int32 0, Float ?z, Float ?z], Row [Int32 1, Int32 1, Float ?z, Float ?z],
       EndRowGroup, Row [Int32 2, Int32 0, Float ?z, Float ?z]]"
    by (simp add: ParquetWriter_v2a_init_def Append_v2a_def FlushRowGroup_def q0)
  have a: "map (map rowid_of) (row_groups (m_writer (run_calls ParquetWriter_v2a_init ?calls))) =
      [[Some 0, Some 1], [Some 0]]"
    using T [THEN conjunct1] unfolding w by (simp add: eval_nat_numeral)
  have b: "map (map rowid_of) (row_groups ?evs) = [[Some 0], [Some 0]]"
    using T [THEN conjunct2, THEN conjunct2, THEN conjunct1] by simp
  from T [THEN conjunct2, THEN conjunct2, THEN conjunct2] obtain fs where
    F: "Rewrite_v2b (\<lambda>p. True) (\<lambda>p. ?img4) 3 5 ''a.vti'' ''a.parquet'' = Some (Inr fs) \<and>
        map rowid_of (concat (map snd fs)) = map (\<lambda>j. Some (int j)) [0..<nat (m_n ?it)] \<and>
        (\<forall>k<length fs. map rowid_of (snd (fs ! k)) =
           map (\<lambda>j. Some (int (k * nat 3 + j))) [0..<length (snd (fs ! k))])" ..
  note f1 = F [THEN conjunct1]
  have f2: "map rowid_of (concat (map snd fs)) = [Some 0, Some 1, Some 2, Some 3]"
    using F [THEN conjunct2, THEN conjunct1] by (simp add: eval_nat_numeral)
  show ?thesis
    by (intro conjI exI [of _ fs] a b f1 f2)
qed

section \<open>The lazy row-group flush and the writer properties\<close>







lemmas builder_eval = fresh_builder_def properties_v2_def properties_vti_def properties_vtu_def
  disable_dictionary_def encoding_all_def encoding_path_def compression_all_def
  compression_path_def encoding_of_def compression_of_def dictionary_enabled_def

text \<open>
  Claim C9, as the code has it. The writers of vti2pqtv2a, of both programs of
  vti2pqtv2b and of the per-file converter with metadata give the integer key columns
  (\<open>timestep\<close>, \<open>rowid\<close>) delta encoding and Snappy compression, give the float columns
  plain encoding and no compression, set no compression as the default and disable
  dictionary encoding for every column. The writer of the unstructured-grid converter
  has float columns only and sets nothing but the default compression, Zstandard:
  encoding and dictionary stay as the library has them in a fresh builder.
\<close>

theorem writer_properties:
  "map (\<lambda>(name, ty). (name, ty, encoding_of (properties_v2 (fresh_builder c0 e0 d0)) name,
                        compression_of (properties_v2 (fresh_builder c0 e0 d0)) name,
                        dictionary_enabled (properties_v2 (fresh_builder c0 e0 d0)) name)) GetSchema_v2 =
     [(''timestep'', INT32, DELTA_BINARY_PACKED, SNAPPY, False),
      (''rowid'', INT32, DELTA_BINARY_PACKED, SNAPPY, False),
      (''v02'', FLOAT, PLAIN, UNCOMPRESSED, False),
      (''v03'', FLOAT, PLAIN, UNCOMPRESSED, False)] \<and>
   default_compression (properties_v2 (fresh_builder c0 e0 d0)) = UNCOMPRESSED \<and>
   map (\<lambda>(name, ty). (name, ty, encoding_of (properties_vti (fresh_builder c0 e0 d0)) name,
                        compression_of (properties_vti (fresh_builder c0 e0 d0)) name,
                        dictionary_enabled (properties_vti (fresh_builder c0 e0 d0)) name)) GetSchema_vti =
     [(''rowid'', INT32, DELTA_BINARY_PACKED, SNAPPY, False),
      (''v02'', FLOAT, PLAIN, UNCOMPRESSED, False),
      (''v03'', FLOAT, PLAIN, UNCOMPRESSED, False)] \<and>
   default_compression (properties_vti (fresh_builder c0 e0 d0)) = UNCOMPRESSED \<and>
   map (\<lambda>(name, ty). (ty, encoding_of (properties_vtu (fresh_builder c0 e0 d0)) name,
                        compression_of (properties_vtu (fresh_builder c0 e0 d0)) name,
                        dictionary_enabled (properties_vtu (fresh_builder c0 e0 d0)) name)) GetSchema_vtu =
     replicate 11 (FLOAT, e0, ZSTD, d0) \<and>
   default_compression (properties_vtu (fresh_builder c0 e0 d0)) = ZSTD"
  by (simp add: builder_eval GetSchema_v2_def GetSchema_vti_def GetSchema_vtu_def eval_nat_numeral)

text \<open>
  The unstructured-grid converter on the library's fresh builder: \<open>rho\<close> is a float
  column of its schema, and dictionary encoding is enabled for it.
\<close>

theorem writer_properties_vtu_dictionary:
  "(''rho'', FLOAT) \<in> set GetSchema_vtu \<and>
   dictionary_enabled (properties_vtu library_builder) ''rho''"
  by (simp add: builder_eval library_builder_def GetSchema_vtu_def)

section \<open>The order of work\<close>

lemma set_fst_map_assign: "fst ` set (map_assign k v m) = insert k (fst ` set m)"
  by (induction m) (force split: if_splits)+

lemma sorted_map_assign:
  "sorted_wrt (<) (map fst m) \<Longrightarrow> sorted_wrt (<) (map fst (map_assign k v m))"
proof (induction m)
  case Nil
  show ?case by simp
next
  case (Cons kv m)
  obtain k' v' where kv: "kv = (k', v')" by (cases kv)
  show ?case
  proof (cases "k < k'")
    case True
    then show ?thesis using Cons.prems unfolding kv by auto
  next
    case False
    note nlt = this
    show ?thesis
    proof (cases "k = k'")
      case True
      then show ?thesis using Cons.prems unfolding kv by simp
    next
      case False
      then have lt: "k' < k" using nlt by simp
      have "\<forall>x \<in> fst ` set (map_assign k v m). k' < x"
        unfolding set_fst_map_assign using Cons.prems lt unfolding kv by auto
      then show ?thesis
        using Cons lt unfolding kv by auto
    qed
  qed
qed

lemma map_of_map_assign: "map_of (map_assign k v m) = (map_of m)(k \<mapsto> v)"
  by (induction m) (auto simp: fun_upd_twist)

lemma scan_v2a_foldl:
  "scan_v2a indir outdir entries (tmp2, work) = Inr (tmp2', work') \<Longrightarrow>
     work' = foldl (\<lambda>m (k, p). map_assign k p m) work (keyed_v2a indir entries)"
proof (induction entries arbitrary: tmp2 work)
  case Nil
  then show ?case by simp
next
  case (Cons entry rest)
  show ?case
  proof (cases "d_type entry = DT_REG \<and> StringEndWith (d_name entry) ''.vti''")
    case True
    with Cons.prems obtain s where
      s: "substr (d_name entry) (size_t_sub (length (d_name entry)) 9) 5 = Inr s"
      by (auto simp: Let_def split: sum.splits)
    then have s': "s = take 5 (drop (size_t_sub (length (d_name entry)) 9) (d_name entry))"
      by (auto simp: substr_def split: if_splits)
    from Cons.prems True s obtain t2 where
      "scan_v2a indir outdir rest (t2, map_assign (atoi s) (indir @ ''/'' @ d_name entry) work) = Inr (tmp2', work')"
      by (auto simp: Let_def)
    from Cons.IH [OF this] show ?thesis
      using True by (simp add: s')
  next
    case False
    with Cons.prems have "scan_v2a indir outdir rest (tmp2, work) = Inr (tmp2', work')"
      by auto
    from Cons.IH [OF this] show ?thesis
      using False by auto
  qed
qed

lemma foldl_map_assign_sorted:
  "sorted_wrt (<) (map fst m) \<Longrightarrow> sorted_wrt (<) (map fst (foldl (\<lambda>m (k, p). map_assign k p m) m kps))"
  by (induction kps arbitrary: m) (auto simp: sorted_map_assign)

lemma foldl_map_assign_map_of:
  "map_of (foldl (\<lambda>m (k, p). map_assign k p m) m kps) = map_of m ++ map_of (rev kps)"
proof (induction kps arbitrary: m)
  case Nil
  show ?case by simp
next
  case (Cons kp kps)
  obtain k p where kp: "kp = (k, p)" by (cases kp)
  show ?case
    unfolding kp
    by (rule ext) (simp add: Cons.IH map_of_map_assign map_add_def split: option.splits)
qed

lemma ProcessDir_loop_v2b_append:
  "ProcessDir_loop_v2b openable reader indir outdir (es1 @ es2) out =
     (case ProcessDir_loop_v2b openable reader indir outdir es1 out of
        None \<Rightarrow> None
      | Some (Inl e) \<Rightarrow> Some (Inl e)
      | Some (Inr out') \<Rightarrow> ProcessDir_loop_v2b openable reader indir outdir es2 out')"
proof (induction es1 arbitrary: out)
  case Nil
  show ?case by simp
next
  case (Cons entry es1)
  show ?case
    by (simp add: Cons.IH Let_def split: sum.splits option.splits)
qed

lemma keyed_v2b_keyed_v2a:
  "map (\<lambda>(t, src, dst). (t, src)) (keyed_v2b indir outdir entries) = keyed_v2a indir entries"
  by (induction entries) simp_all

lemma scan_v2a_substr:
  "scan_v2a indir outdir entries st = Inr st' \<Longrightarrow>
   \<forall>entry \<in> set entries. d_type entry = DT_REG \<and> StringEndWith (d_name entry) ''.vti'' \<longrightarrow>
     substr (d_name entry) (size_t_sub (length (d_name entry)) 9) 5 =
       Inr (take 5 (drop (size_t_sub (length (d_name entry)) 9) (d_name entry)))"
proof (induction entries arbitrary: st)
  case Nil
  show ?case by simp
next
  case (Cons entry rest)
  obtain tmp2 work where st: "st = (tmp2, work)" by (cases st)
  show ?case
  proof (cases "d_type entry = DT_REG \<and> StringEndWith (d_name entry) ''.vti''")
    case True
    from Cons.prems True obtain s where
      s: "substr (d_name entry) (size_t_sub (length (d_name entry)) 9) 5 = Inr s"
      unfolding st by (auto simp: Let_def split: sum.splits)
    then have s': "s = take 5 (drop (size_t_sub (length (d_name entry)) 9) (d_name entry))"
      by (auto simp: substr_def split: if_splits)
    from Cons.prems True s obtain st2 where
      "scan_v2a indir outdir rest st2 = Inr st'"
      unfolding st by (auto simp: Let_def)
    from Cons.IH [OF this] show ?thesis
      using s s' by simp
  next
    case False
    with Cons.prems have "scan_v2a indir outdir rest st = Inr st'"
      unfolding st by auto
    from Cons.IH [OF this] show ?thesis
      using False by auto
  qed
qed

lemma ceiling_v2b_pos: "0 < ceiling_v2b"
  by (simp add: ceiling_v2b_def)

lemma ProcessDir_loop_v2b_files:
  assumes op: "\<forall>p. openable p"
    and rd: "\<forall>p. \<exists>it. Iterator_init (reader p) = Inr it"
  shows "\<forall>entry \<in> set entries. d_type entry = DT_REG \<and> StringEndWith (d_name entry) ''.vti'' \<longrightarrow>
           substr (d_name entry) (size_t_sub (length (d_name entry)) 9) 5 =
             Inr (take 5 (drop (size_t_sub (length (d_name entry)) 9) (d_name entry))) \<Longrightarrow>
         ProcessDir_loop_v2b openable reader indir outdir entries out =
           Some (Inr (out @ concat (map (split_of_file reader) (keyed_v2b indir outdir entries))))"
proof (induction entries arbitrary: out)
  case Nil
  show ?case by simp
next
  case (Cons entry rest)
  have rest: "\<forall>entry \<in> set rest. d_type entry = DT_REG \<and> StringEndWith (d_name entry) ''.vti'' \<longrightarrow>
           substr (d_name entry) (size_t_sub (length (d_name entry)) 9) 5 =
             Inr (take 5 (drop (size_t_sub (length (d_name entry)) 9) (d_name entry)))"
    using Cons.prems by simp
  note IH = Cons.IH [OF rest]
  show ?case
  proof (cases "d_type entry = DT_REG \<and> StringEndWith (d_name entry) ''.vti''")
    case True
    let ?f = "d_name entry"
    let ?t = "atoi (take 5 (drop (size_t_sub (length ?f) 9) ?f))"
    let ?src = "indir @ ''/'' @ ?f"
    let ?dst = "outdir @ ''/'' @ take (size_t_sub (length ?f) 4) ?f @ ''.parquet''"
    have s: "substr ?f (size_t_sub (length ?f) 9) 5 = Inr (take 5 (drop (size_t_sub (length ?f) 9) ?f))"
      using Cons.prems True by simp
    obtain it where it: "Iterator_init (reader ?src) = Inr it" using rd by blast
    have rows: "rows_of_file reader ?t ?src = iter_rows ?t 0 (SeekToFirst it)"
      unfolding rows_of_file_def it by simp
    have rw: "Rewrite_v2b openable reader ceiling_v2b ?t ?src ?dst =
                Some (Inr (split_of_file reader (?t, ?src, ?dst)))"
      unfolding split_of_file_def prod.case rows
      by (rule Rewrite_v2b_chunks [where reader = reader and src = ?src, OF ceiling_v2b_pos op it])
    show ?thesis
      using True rw by (simp add: Let_def s IH)
  next
    case False
    then show ?thesis by (auto simp: IH)
  qed
qed

lemma Rewrite_loop_v2a_rows:
  "filter is_row (m_writer (Rewrite_loop_v2a t w it)) =
     filter is_row (m_writer w) @ iter_rows t (m_rowid w) it"
proof (induction t w it rule: Rewrite_loop_v2a.induct)
  case (1 t w it)
  show ?case
  proof (cases "Valid it")
    case True
    have "filter is_row (m_writer (Rewrite_loop_v2a t w it)) =
          filter is_row (m_writer (Append_v2a w t (v02 it) (v03 it))) @
            iter_rows t (m_rowid (Append_v2a w t (v02 it) (v03 it))) (Next it)"
      using True 1 by (subst Rewrite_loop_v2a.simps) simp
    also have "\<dots> = filter is_row (m_writer w) @ row_v2b t (m_rowid w) it # iter_rows t (m_rowid w + 1) (Next it)"
      by (simp add: Append_v2a_def Let_def row_v2b_def)
    finally show ?thesis using True by (simp add: iter_rows_Valid)
  next
    case False
    then show ?thesis by (subst Rewrite_loop_v2a.simps) (simp add: iter_rows_not_Valid)
  qed
qed

lemma Rewrite_all_v2a_rows:
  assumes rd: "\<forall>p. \<exists>it. Iterator_init (reader p) = Inr it"
  shows "m_rowid w = 0 \<Longrightarrow>
         \<exists>w'. Rewrite_all_v2a reader items w = Inr w' \<and>
              filter is_row (m_writer w') =
                filter is_row (m_writer w) @ concat (map (\<lambda>(t, src). rows_of_file reader t src) items)"
proof (induction items arbitrary: w)
  case Nil
  show ?case by simp
next
  case (Cons kv rest)
  obtain t src where kv: "kv = (t, src)" by (cases kv)
  obtain it where it: "Iterator_init (reader src) = Inr it" using rd by blast
  define w1 where "w1 = FlushRowGroup (Rewrite_loop_v2a t w (SeekToFirst it))"
  have r: "Rewrite_v2a reader src t w = Inr w1"
    by (simp add: Rewrite_v2a_def it w1_def)
  have z: "m_rowid w1 = 0" by (simp add: w1_def FlushRowGroup_def)
  have rows1: "filter is_row (m_writer w1) = filter is_row (m_writer w) @ rows_of_file reader t src"
    using Rewrite_loop_v2a_rows [of t w "SeekToFirst it"] Cons.prems
    by (simp add: w1_def FlushRowGroup_def rows_of_file_def it)
  obtain w' where w': "Rewrite_all_v2a reader rest w1 = Inr w'"
    and rows': "filter is_row (m_writer w') =
                filter is_row (m_writer w1) @ concat (map (\<lambda>(t, src). rows_of_file reader t src) rest)"
    using Cons.IH [OF z] by blast
  show ?case
    unfolding kv using r w' rows' rows1
    by (intro exI [of _ w']) simp
qed


text \<open>
  Claim C3, as the code has it. In vti2pqtv2a the scan puts every matching file under
  its integer key into the ordered map, a later file replacing an earlier one of the same
  key, and \<^verbatim>\<open>ProcessDir\<close> then rewrites the entries of the map in strictly ascending
  order of the key: when every path opens and every snapshot has both fields, the rows of
  the one output are the rows of the map's files, file after file in this order. The
  splitting converter keeps no map: it rewrites each matching file as the enumeration
  reaches it. Under the same conditions its output files are those of the matching
  files in enumeration order, a file whose key was met before included, each source
  file split under its own name; the keys and paths it goes through are the list the
  map of vti2pqtv2a is built from. (The scan is taken to succeed: \<^verbatim>\<open>substr\<close> throws on
  no matching name, which is the same call in both programs.)
\<close>

theorem work_order:
  assumes sc: "scan_v2a indir outdir entries (outdir, []) = Inr (tmp2, work_items)"
  shows "sorted_wrt (<) (map fst work_items) \<and>
         map_of work_items = map_of (rev (keyed_v2a indir entries)) \<and>
         ProcessDir_v2a openable reader (Some entries) indir outdir =
           (if \<not> openable tmp2 then Inl (IOError tmp2)
            else case Rewrite_all_v2a reader work_items ParquetWriter_v2a_init of
                   Inl e \<Rightarrow> Inl e
                 | Inr writer \<Rightarrow> Inr (tmp2, Finish writer)) \<and>
         ProcessDir_loop_v2b openable' reader' indir' outdir' (es1 @ es2) out =
           (case ProcessDir_loop_v2b openable' reader' indir' outdir' es1 out of
              None \<Rightarrow> None
            | Some (Inl e) \<Rightarrow> Some (Inl e)
            | Some (Inr out') \<Rightarrow> ProcessDir_loop_v2b openable' reader' indir' outdir' es2 out') \<and>
         map (\<lambda>(t, src, dst). (t, src)) (keyed_v2b indir outdir entries) = keyed_v2a indir entries \<and>
         ((\<forall>p. openable p) \<and> (\<forall>p. \<exists>it. Iterator_init (reader p) = Inr it) \<longrightarrow>
            (\<exists>evs. ProcessDir_v2a openable reader (Some entries) indir outdir = Inr (tmp2, evs) \<and>
                   filter is_row evs = concat (map (\<lambda>(t, src). rows_of_file reader t src) work_items)) \<and>
            ProcessDir_v2b openable reader (Some entries) indir outdir =
              Some (Inr (concat (map (split_of_file reader) (keyed_v2b indir outdir entries)))))"
proof (intro conjI impI)
  have w: "work_items = foldl (\<lambda>m (k, p). map_assign k p m) [] (keyed_v2a indir entries)"
    by (rule scan_v2a_foldl [OF sc])
  show "sorted_wrt (<) (map fst work_items)"
    unfolding w by (rule foldl_map_assign_sorted) simp
  show "map_of work_items = map_of (rev (keyed_v2a indir entries))"
    unfolding w by (simp add: foldl_map_assign_map_of)
  show "ProcessDir_v2a openable reader (Some entries) indir outdir =
           (if \<not> openable tmp2 then Inl (IOError tmp2)
            else case Rewrite_all_v2a reader work_items ParquetWriter_v2a_init of
                   Inl e \<Rightarrow> Inl e
                 | Inr writer \<Rightarrow> Inr (tmp2, Finish writer))"
    by (simp add: ProcessDir_v2a_def sc)
  show "ProcessDir_loop_v2b openable' reader' indir' outdir' (es1 @ es2) out =
           (case ProcessDir_loop_v2b openable' reader' indir' outdir' es1 out of
              None \<Rightarrow> None
            | Some (Inl e) \<Rightarrow> Some (Inl e)
            | Some (Inr out') \<Rightarrow> ProcessDir_loop_v2b openable' reader' indir' outdir' es2 out')"
    by (rule ProcessDir_loop_v2b_append)
  show "map (\<lambda>(t, src, dst). (t, src)) (keyed_v2b indir outdir entries) = keyed_v2a indir entries"
    by (rule keyed_v2b_keyed_v2a)
next
  assume h: "(\<forall>p. openable p) \<and> (\<forall>p. \<exists>it. Iterator_init (reader p) = Inr it)"
  then have op: "\<forall>p. openable p" and rd: "\<forall>p. \<exists>it. Iterator_init (reader p) = Inr it"
    by simp_all
  have z: "m_rowid ParquetWriter_v2a_init = 0" by (simp add: ParquetWriter_v2a_init_def)
  obtain w' where w': "Rewrite_all_v2a reader work_items ParquetWriter_v2a_init = Inr w'"
    and rows: "filter is_row (m_writer w') =
                filter is_row (m_writer ParquetWriter_v2a_init) @
                  concat (map (\<lambda>(t, src). rows_of_file reader t src) work_items)"
    using Rewrite_all_v2a_rows [OF rd z, of work_items] by blast
  have p: "ProcessDir_v2a openable reader (Some entries) indir outdir = Inr (tmp2, Finish w')"
    using op by (simp add: ProcessDir_v2a_def sc w')
  have f: "filter is_row (Finish w') = concat (map (\<lambda>(t, src). rows_of_file reader t src) work_items)"
    using rows by (simp add: Finish_def ParquetWriter_v2a_init_def)
  show "\<exists>evs. ProcessDir_v2a openable reader (Some entries) indir outdir = Inr (tmp2, evs) \<and>
                   filter is_row evs = concat (map (\<lambda>(t, src). rows_of_file reader t src) work_items)"
    using p f by (intro exI [of _ "Finish w'"]) simp
  show "ProcessDir_v2b openable reader (Some entries) indir outdir =
              Some (Inr (concat (map (split_of_file reader) (keyed_v2b indir outdir entries))))"
    using ProcessDir_loop_v2b_files [OF op rd scan_v2a_substr [OF sc], of indir outdir "[]"]
    by (simp add: ProcessDir_v2b_def)
qed


text \<open>
  Files with the keys 7, 2, 15 and 2 again, enumerated in this order, the second file of
  key 2 holding another value. In vti2pqtv2a the map is \<open>[2, 7, 15]\<close> with the later file
  under key 2, and the output has the later file's value in the row group of timestep 2.
  The splitting converter writes four outputs, in the order 7, 2, 15, 2, one for each of
  the two files of key 2.
\<close>

theorem work_order_witness:
  "scan_v2a ''in'' ''out''
     [\<lparr>d_type = DT_REG, d_name = ''x_00007.vti''\<rparr>, \<lparr>d_type = DT_REG, d_name = ''x_00002.vti''\<rparr>,
      \<lparr>d_type = DT_REG, d_name = ''x_00015.vti''\<rparr>, \<lparr>d_type = DT_REG, d_name = ''y_00002.vti''\<rparr>]
     (''out'', []) =
     Inr (''out/x.parquet'',
          [(2, ''in/y_00002.vti''), (7, ''in/x_00007.vti''), (15, ''in/x_00015.vti'')]) \<and>
   sorted_wrt (<) [2, 7, 15 :: int] \<and>
   map_of [(2 :: int, ''in/y_00002.vti''), (7, ''in/x_00007.vti''), (15, ''in/x_00015.vti'')] 2 =
     Some ''in/y_00002.vti'' \<and>
   ProcessDir_v2a (\<lambda>p. True)
     (\<lambda>p. \<lparr>NumberOfPoints = 1,
             PointData = (\<lambda>name. if name = ''v02''
                                   then Some [if p = ''in/y_00002.vti'' then FFinite False 8388608 (- 23)
                                              else FFinite False 0 (- 149)]
                                   else if name = ''v03'' then Some [FFinite False 0 (- 149)] else None),
             FieldData = (\<lambda>name. None), Extent = [], Origin = [], Spacing = []\<rparr>)
     (Some [\<lparr>d_type = DT_REG, d_name = ''x_00007.vti''\<rparr>, \<lparr>d_type = DT_REG, d_name = ''x_00002.vti''\<rparr>,
            \<lparr>d_type = DT_REG, d_name = ''x_00015.vti''\<rparr>, \<lparr>d_type = DT_REG, d_name = ''y_00002.vti''\<rparr>])
     ''in'' ''out'' =
     Inr (''out/x.parquet'',
          [Row [Int32 2, Int32 0, Float (FFinite False 8388608 (- 23)), Float (FFinite False 0 (- 149))],
           EndRowGroup,
           Row [Int32 7, Int32 0, Float (FFinite False 0 (- 149)), Float (FFinite False 0 (- 149))],
           EndRowGroup,
           Row [Int32 15, Int32 0, Float (FFinite False 0 (- 149)), Float (FFinite False 0 (- 149))]]) \<and>
   ProcessDir_v2b (\<lambda>p. True)
     (\<lambda>p. \<lparr>NumberOfPoints = 1,
             PointData = (\<lambda>name. if name = ''v02''
                                   then Some [if p = ''in/y_00002.vti'' then FFinite False 8388608 (- 23)
                                              else FFinite False 0 (- 149)]
                                   else if name = ''v03'' then Some [FFinite False 0 (- 149)] else None),
             FieldData = (\<lambda>name. None), Extent = [], Origin = [], Spacing = []\<rparr>)
     (Some [\<lparr>d_type = DT_REG, d_name = ''x_00007.vti''\<rparr>, \<lparr>d_type = DT_REG, d_name = ''x_00002.vti''\<rparr>,
            \<lparr>d_type = DT_REG, d_name = ''x_00015.vti''\<rparr>, \<lparr>d_type = DT_REG, d_name = ''y_00002.vti''\<rparr>])
     ''in'' ''out'' =
     Some (Inr [(''out/x_00007.parquet.0'',
                  [Row [Int32 7, Int32 0, Float (FFinite False 0 (- 149)), Float (FFinite False 0 (- 149))]]),
                (''out/x_00002.parquet.0'',
                  [Row [Int32 2, Int32 0, Float (FFinite False 0 (- 149)), Float (FFinite False 0 (- 149))]]),
                (''out/x_00015.parquet.0'',
                  [Row [Int32 15, Int32 0, Float (FFinite False 0 (- 149)), Float (FFinite False 0 (- 149))]]),
                (''out/y_00002.parquet.0'',
                  [Row [Int32 2, Int32 0, Float (FFinite False 8388608 (- 23)), Float (FFinite False 0 (- 149))]])])"
proof -
  let ?entries = "[\<lparr>d_type = DT_REG, d_name = ''x_00007.vti''\<rparr>, \<lparr>d_type = DT_REG, d_name = ''x_00002.vti''\<rparr>,
      \<lparr>d_type = DT_REG, d_name = ''x_00015.vti''\<rparr>, \<lparr>d_type = DT_REG, d_name = ''y_00002.vti''\<rparr>]"
  let ?work = "[(2 :: int, ''in/y_00002.vti''), (7, ''in/x_00007.vti''), (15, ''in/x_00015.vti'')]"
  let ?reader = "\<lambda>p. \<lparr>NumberOfPoints = 1,
             PointData = (\<lambda>name. if name = ''v02''
                                   then Some [if p = ''in/y_00002.vti'' then FFinite False 8388608 (- 23)
                                              else FFinite False 0 (- 149)]
                                   else if name = ''v03'' then Some [FFinite False 0 (- 149)] else None),
             FieldData = (\<lambda>name. None), Extent = [], Origin = [], Spacing = []\<rparr>"
  have q0: "quantize (FFinite False 0 (- 149)) = FFinite False 0 (- 149)"
    by (simp add: quantize_def float_of_int_def round_to_float32_def floor_log2_def rne_div_def
        bitlen.simps Let_def)
  have q1: "quantize (FFinite False 8388608 (- 23)) = FFinite False 8388608 (- 23)"
    by (simp add: quantize_def float_of_int_def round_to_float32_def floor_log2_def rne_div_def
        bitlen.simps Let_def)
  have sc: "scan_v2a ''in'' ''out'' ?entries (''out'', []) = Inr (''out/x.parquet'', ?work)"
    by (simp add: StringEndWith_def substr_def size_t_sub_def isdigit_def isspace_def)
  have op: "\<forall>p::string. True" by simp
  have rd: "\<forall>p. \<exists>it. Iterator_init (?reader p) = Inr it"
    by (simp add: Iterator_init_def GET_POINTER_def)
  note T = work_order [where openable = "\<lambda>p. True" and reader = ?reader, OF sc]
  have a: "sorted_wrt (<) [2, 7, 15 :: int]"
    using T [THEN conjunct1] by simp
  have b: "map_of ?work 2 = Some ''in/y_00002.vti''"
    by simp
  have r: "Rewrite_all_v2a ?reader ?work ParquetWriter_v2a_init =
      Inr \<lparr>m_writer = [Row [Int32 2, Int32 0, Float (FFinite False 8388608 (- 23)), Float (FFinite False 0 (- 149))],
           EndRowGroup,
           Row [Int32 7, Int32 0, Float (FFinite False 0 (- 149)), Float (FFinite False 0 (- 149))],
           EndRowGroup,
           Row [Int32 15, Int32 0, Float (FFinite False 0 (- 149)), Float (FFinite False 0 (- 149))]],
           m_rowid = 0, m_pending_rgflush = True\<rparr>"
    by (simp add: Rewrite_v2a_def Iterator_init_def GET_POINTER_def to_int32_def SeekToFirst_def
        Rewrite_loop_v2a.simps Valid_def Next_def v02_def v03_def Append_v2a_def FlushRowGroup_def
        ParquetWriter_v2a_init_def q0 q1)
  have p: "ProcessDir_v2a (\<lambda>p. True) ?reader (Some ?entries) ''in'' ''out'' =
     Inr (''out/x.parquet'',
          [Row [Int32 2, Int32 0, Float (FFinite False 8388608 (- 23)), Float (FFinite False 0 (- 149))],
           EndRowGroup,
           Row [Int32 7, Int32 0, Float (FFinite False 0 (- 149)), Float (FFinite False 0 (- 149))],
           EndRowGroup,
           Row [Int32 15, Int32 0, Float (FFinite False 0 (- 149)), Float (FFinite False 0 (- 149))]])"
    using T [THEN conjunct2, THEN conjunct2, THEN conjunct1] unfolding r by (simp add: Finish_def)
  have k: "keyed_v2b ''in'' ''out'' ?entries =
      [(7, ''in/x_00007.vti'', ''out/x_00007.parquet''), (2, ''in/x_00002.vti'', ''out/x_00002.parquet''),
       (15, ''in/x_00015.vti'', ''out/x_00015.parquet''), (2, ''in/y_00002.vti'', ''out/y_00002.parquet'')]"
    by (simp add: StringEndWith_def size_t_sub_def isdigit_def isspace_def)
  have rf: "rows_of_file ?reader t src =
      [Row [Int32 t, Int32 0,
            Float (if src = ''in/y_00002.vti'' then FFinite False 8388608 (- 23) else FFinite False 0 (- 149)),
            Float (FFinite False 0 (- 149))]]" for t src
    by (simp add: rows_of_file_def Iterator_init_def GET_POINTER_def to_int32_def SeekToFirst_def
        iter_rows.simps Valid_def Next_def row_v2b_def v02_def v03_def q0 q1)
  have sf: "split_of_file ?reader (t, src, dst) =
      [(dst @ ''.0'',
        [Row [Int32 t, Int32 0,
              Float (if src = ''in/y_00002.vti'' then FFinite False 8388608 (- 23) else FFinite False 0 (- 149)),
              Float (FFinite False 0 (- 149))]])]" for t src dst
    unfolding split_of_file_def prod.case rf
    by (simp add: chunks_single ceiling_v2b_def numbered_Cons to_string_0)
  have v: "ProcessDir_v2b (\<lambda>p. True) ?reader (Some ?entries) ''in'' ''out'' =
     Some (Inr [(''out/x_00007.parquet.0'',
                  [Row [Int32 7, Int32 0, Float (FFinite False 0 (- 149)), Float (FFinite False 0 (- 149))]]),
                (''out/x_00002.parquet.0'',
                  [Row [Int32 2, Int32 0, Float (FFinite False 0 (- 149)), Float (FFinite False 0 (- 149))]]),
                (''out/x_00015.parquet.0'',
                  [Row [Int32 15, Int32 0, Float (FFinite False 0 (- 149)), Float (FFinite False 0 (- 149))]]),
                (''out/y_00002.parquet.0'',
                  [Row [Int32 2, Int32 0, Float (FFinite False 8388608 (- 23)), Float (FFinite False 0 (- 149))]])])"
    using T [THEN conjunct2, THEN conjunct2, THEN conjunct2, THEN conjunct2, THEN conjunct2,
             rule_format, OF conjI [OF op rd], THEN conjunct2]
    unfolding k by (simp add: sf)
  show ?thesis
    by (intro conjI sc a b p v)
qed

text \<open>
  The splitting converter on a directory that lists the file of key 7 before the file
  of key 2: the outputs of key 7 are written first.
\<close>

theorem work_order_v2b_enumeration:
  "ProcessDir_v2b (\<lambda>p. True)
     (\<lambda>p. \<lparr>NumberOfPoints = 1,
             PointData = (\<lambda>name. if name = ''v02'' \<or> name = ''v03''
                                   then Some [FFinite False 0 (- 149)] else None),
             FieldData = (\<lambda>name. None), Extent = [], Origin = [], Spacing = []\<rparr>)
     (Some [\<lparr>d_type = DT_REG, d_name = ''x_00007.vti''\<rparr>, \<lparr>d_type = DT_REG, d_name = ''x_00002.vti''\<rparr>])
     ''in'' ''out'' =
   Some (Inr [(''out/x_00007.parquet.0'',
                [Row [Int32 7, Int32 0, Float (FFinite False 0 (- 149)), Float (FFinite False 0 (- 149))]]),
              (''out/x_00002.parquet.0'',
                [Row [Int32 2, Int32 0, Float (FFinite False 0 (- 149)), Float (FFinite False 0 (- 149))]])])"
proof -
  have q0: "quantize (FFinite False 0 (- 149)) = FFinite False 0 (- 149)"
    by (simp add: quantize_def float_of_int_def round_to_float32_def floor_log2_def rne_div_def
        bitlen.simps Let_def)
  show ?thesis
    by (simp add: ProcessDir_v2b_def StringEndWith_def substr_def size_t_sub_def isdigit_def
        isspace_def Rewrite_v2b_def Iterator_init_def GET_POINTER_def to_int32_def SeekToFirst_def
        Rewrite_loop_v2b.simps Rewrite0_v2b_def Rewrite0_loop_v2b.simps ParquetWriter_v2b_init_def
        Valid_def Next_def v02_def v03_def Append_v2b_def Finish_def ceiling_v2b_def
        to_string_def to_string_nat.simps digit_char_def q0)
qed

section \<open>Missing fields\<close>

text \<open>
  Claim C7 fails on the code: no lookup is checked. A snapshot without the array
  \<open>v03\<close> makes the iterator's constructor call a member of a null pointer, and so
  \<^verbatim>\<open>Rewrite\<close> of vti2pqtv2a and of the splitting converter; a snapshot without
  \<open>cycle_index\<close> does the same in \<^verbatim>\<open>ExtraMetadata\<close>, after the output file was opened.
  In vti2pqtv2a the rows of the files rewritten before are in the stream by then: of
  two files with keys 1 and 2, the second without \<open>v03\<close>, the first is appended and the
  second ends the run.
\<close>

theorem missing_field_null_dereference:
  "Iterator_init (img\<lparr>PointData := (PointData img)(''v03'' := None)\<rparr>) = Inl NullPointerDereference \<and>
   Rewrite_v2a (\<lambda>p. img\<lparr>PointData := (PointData img)(''v03'' := None)\<rparr>) src t w =
     Inl NullPointerDereference \<and>
   Rewrite_v2b openable (\<lambda>p. img\<lparr>PointData := (PointData img)(''v03'' := None)\<rparr>) c t src dst =
     Some (Inl NullPointerDereference) \<and>
   ExtraMetadata dstr (img\<lparr>FieldData := (FieldData img)(''cycle_index'' := None)\<rparr>) =
     Inl NullPointerDereference \<and>
   Rewrite_vti (\<lambda>p. True) (\<lambda>p. img\<lparr>FieldData := (FieldData img)(''cycle_index'' := None)\<rparr>) dstr src dst =
     Inl NullPointerDereference \<and>
   Rewrite_v2a
     (\<lambda>p. \<lparr>NumberOfPoints = 1,
             PointData = (\<lambda>name. if name = ''v02'' \<or> (name = ''v03'' \<and> p = ''in/x_00001.vti'')
                                   then Some [FFinite False 0 (- 149)] else None),
             FieldData = (\<lambda>name. None), Extent = [], Origin = [], Spacing = []\<rparr>)
     ''in/x_00001.vti'' 1 ParquetWriter_v2a_init =
     Inr \<lparr>m_writer = [Row [Int32 1, Int32 0, Float (FFinite False 0 (- 149)), Float (FFinite False 0 (- 149))]],
          m_rowid = 0, m_pending_rgflush = True\<rparr> \<and>
   ProcessDir_v2a (\<lambda>p. True)
     (\<lambda>p. \<lparr>NumberOfPoints = 1,
             PointData = (\<lambda>name. if name = ''v02'' \<or> (name = ''v03'' \<and> p = ''in/x_00001.vti'')
                                   then Some [FFinite False 0 (- 149)] else None),
             FieldData = (\<lambda>name. None), Extent = [], Origin = [], Spacing = []\<rparr>)
     (Some [\<lparr>d_type = DT_REG, d_name = ''x_00001.vti''\<rparr>, \<lparr>d_type = DT_REG, d_name = ''x_00002.vti''\<rparr>])
     ''in'' ''out'' = Inl NullPointerDereference"
proof -
  have q0: "quantize (FFinite False 0 (- 149)) = FFinite False 0 (- 149)"
    by (simp add: quantize_def float_of_int_def round_to_float32_def floor_log2_def rne_div_def
        bitlen.simps Let_def)
  have i: "Iterator_init (img\<lparr>PointData := (PointData img)(''v03'' := None)\<rparr>) = Inl NullPointerDereference"
    by (simp add: Iterator_init_def GET_POINTER_def split: option.splits)
  have e: "ExtraMetadata dstr (img\<lparr>FieldData := (FieldData img)(''cycle_index'' := None)\<rparr>) =
     Inl NullPointerDereference"
    by (simp add: ExtraMetadata_def)
  show ?thesis
    apply (intro conjI i e)
        apply (simp add: Rewrite_v2a_def i)
       apply (simp add: Rewrite_v2b_def i)
      apply (simp add: Rewrite_vti_def e)
     apply (simp add: Rewrite_v2a_def Iterator_init_def GET_POINTER_def to_int32_def SeekToFirst_def
        Rewrite_loop_v2a.simps Valid_def Next_def v02_def v03_def Append_v2a_def FlushRowGroup_def
        ParquetWriter_v2a_init_def q0)
    apply (simp add: ProcessDir_v2a_def StringEndWith_def substr_def size_t_sub_def isdigit_def
        isspace_def Rewrite_v2a_def Iterator_init_def GET_POINTER_def to_int32_def SeekToFirst_def
        Rewrite_loop_v2a.simps Valid_def Next_def v02_def v03_def Append_v2a_def FlushRowGroup_def
        ParquetWriter_v2a_init_def q0)
    done
qed


section \<open>The quantization step\<close>

lemma bitlen_bounds: "0 < n \<Longrightarrow> 2 ^ (bitlen n - 1) \<le> n \<and> n < 2 ^ bitlen n"
proof (induction n rule: bitlen.induct)
  case (1 n)
  show ?case
  proof (cases "n div 2 = 0")
    case True
    then have "n = 1" using "1.prems" by auto
    then show ?thesis by (simp add: bitlen.simps)
  next
    case False
    then have pos: "0 < n div 2" by simp
    have ih: "2 ^ (bitlen (n div 2) - 1) \<le> n div 2 \<and> n div 2 < 2 ^ bitlen (n div 2)"
      using "1.IH" "1.prems" pos by simp
    have bl: "bitlen n = Suc (bitlen (n div 2))"
      using "1.prems" by (subst bitlen.simps) simp
    have bpos: "0 < bitlen (n div 2)"
      using pos by (subst bitlen.simps) simp
    then obtain j where j: "bitlen (n div 2) = Suc j" by (cases "bitlen (n div 2)") auto
    have lo: "2 ^ (bitlen n - 1) \<le> n"
    proof -
      have "2 * 2 ^ j \<le> 2 * (n div 2)" using ih j by simp
      also have "\<dots> \<le> n" by simp
      finally show ?thesis by (simp add: bl j)
    qed
    have hi: "n < 2 ^ bitlen n"
    proof -
      have "n div 2 + 1 \<le> 2 ^ bitlen (n div 2)" using ih by simp
      then have "2 * (n div 2) + 2 \<le> 2 * 2 ^ bitlen (n div 2)" by simp
      moreover have "n \<le> 2 * (n div 2) + 1" by presburger
      ultimately show ?thesis by (simp add: bl)
    qed
    show ?thesis using lo hi by simp
  qed
qed

lemma bitlen_pos: "0 < n \<Longrightarrow> 0 < bitlen n"
  by (subst bitlen.simps) simp

lemma bitlen_real:
  assumes "0 < n"
  shows "2 powi (int (bitlen n) - 1) \<le> real n" and "real n < 2 powi (int (bitlen n))"
proof -
  have b: "2 ^ (bitlen n - 1) \<le> n" "n < 2 ^ bitlen n"
    using bitlen_bounds [OF assms] by auto
  have e: "int (bitlen n) - 1 = int (bitlen n - 1)"
    using bitlen_pos [OF assms] by simp
  have "real (2 ^ (bitlen n - 1)) \<le> real n" using b(1) by (simp only: of_nat_le_iff)
  then have "(2::real) ^ (bitlen n - 1) \<le> real n" by simp
  then show "2 powi (int (bitlen n) - 1) \<le> real n"
    unfolding e by (simp only: power_int_of_nat)
  have "real n < real (2 ^ bitlen n)" using b(2) by (simp only: of_nat_less_iff)
  then have "real n < (2::real) ^ bitlen n" by simp
  then show "real n < 2 powi (int (bitlen n))"
    by (simp only: power_int_of_nat)
qed

lemma powi2_add: "(2::real) powi i * 2 powi j = 2 powi (i + j)"
  by (simp add: power_int_add)

lemma floor_log2_bounds:
  assumes a: "0 < a" and b: "0 < b"
  shows "2 powi (floor_log2 a b) \<le> real a / real b"
    and "real a / real b < 2 powi (floor_log2 a b + 1)"
proof -
  define d where "d = int (bitlen a) - int (bitlen b)"
  have ra: "2 powi (int (bitlen a) - 1) \<le> real a" "real a < 2 powi (int (bitlen a))"
    using bitlen_real [OF a] by auto
  have rb: "2 powi (int (bitlen b) - 1) \<le> real b" "real b < 2 powi (int (bitlen b))"
    using bitlen_real [OF b] by auto
  have rbpos: "0 < real b" using b by simp
  have rapos: "0 < real a" using a by simp
  have lo: "2 powi (d - 1) \<le> real a / real b"
  proof -
    have "2 powi (d - 1) * real b \<le> 2 powi (d - 1) * 2 powi (int (bitlen b))"
      using rb(2) by (intro mult_left_mono) auto
    also have "\<dots> = 2 powi (int (bitlen a) - 1)"
    proof -
      have "d - 1 + int (bitlen b) = int (bitlen a) - 1" unfolding d_def by simp
      then show ?thesis by (simp only: powi2_add)
    qed
    also have "\<dots> \<le> real a" by (rule ra(1))
    finally show ?thesis using rbpos by (simp add: pos_le_divide_eq)
  qed
  have hi: "real a / real b < 2 powi (d + 1)"
  proof -
    have "real a < 2 powi (int (bitlen a))" by (rule ra(2))
    also have "\<dots> = 2 powi (d + 1) * 2 powi (int (bitlen b) - 1)"
    proof -
      have "d + 1 + (int (bitlen b) - 1) = int (bitlen a)" unfolding d_def by simp
      then show ?thesis by (simp only: powi2_add)
    qed
    also have "\<dots> \<le> 2 powi (d + 1) * real b"
      using rb(1) by (intro mult_left_mono) auto
    finally show ?thesis using rbpos by (simp add: pos_divide_less_eq)
  qed
  define test where "test = (if 0 \<le> d then b * 2 ^ nat d \<le> a else b \<le> a * 2 ^ nat (- d))"
  have test_iff: "test \<longleftrightarrow> 2 powi d \<le> real a / real b"
  proof (cases "0 \<le> d")
    case True
    then have p: "(2::real) powi d = 2 ^ nat d" by (simp add: power_int_nonneg_exp)
    have "test \<longleftrightarrow> real (b * 2 ^ nat d) \<le> real a"
      using True unfolding test_def by (simp only: of_nat_le_iff if_True)
    also have "\<dots> \<longleftrightarrow> 2 ^ nat d * real b \<le> real a" by (simp add: mult.commute)
    also have "\<dots> \<longleftrightarrow> 2 powi d \<le> real a / real b"
      using rbpos unfolding p by (simp add: pos_le_divide_eq)
    finally show ?thesis .
  next
    case False
    then have p: "(2::real) powi d = 1 / 2 ^ nat (- d)"
      using power_int_minus_divide [of "2::real" "- d"] by (simp add: power_int_nonneg_exp)
    have "test \<longleftrightarrow> real b \<le> real (a * 2 ^ nat (- d))"
      using False unfolding test_def by (simp only: of_nat_le_iff if_False)
    also have "\<dots> \<longleftrightarrow> real b \<le> real a * 2 ^ nat (- d)" by simp
    also have "\<dots> \<longleftrightarrow> 2 powi d \<le> real a / real b"
      using rbpos unfolding p by (simp add: field_simps)
    finally show ?thesis .
  qed
  have fl: "floor_log2 a b = (if test then d else d - 1)"
    unfolding floor_log2_def test_def d_def by (simp add: Let_def)
  show "2 powi (floor_log2 a b) \<le> real a / real b"
    using lo test_iff unfolding fl by auto
  show "real a / real b < 2 powi (floor_log2 a b + 1)"
    using hi test_iff unfolding fl by auto
qed

lemma rne_div_bound:
  assumes b: "0 < b"
  shows "\<bar>real (rne_div a b) - real a / real b\<bar> \<le> 1 / 2"
proof -
  define q where "q = a div b"
  define r where "r = a mod b"
  have a: "a = q * b + r" unfolding q_def r_def by simp
  have rb: "r < b" unfolding r_def using b by simp
  have bpos: "0 < real b" using b by simp
  have frac: "real a / real b = real q + real r / real b"
    unfolding a using bpos by (simp add: field_simps)
  have r1: "real r / real b < 1" using rb bpos by simp
  have r0: "0 \<le> real r / real b" by simp
  consider (lt) "2 * r < b" | (gt) "b < 2 * r" | (eq) "2 * r = b" by linarith
  then show ?thesis
  proof cases
    case lt
    then have "rne_div a b = q" unfolding rne_div_def q_def r_def by (simp add: Let_def)
    moreover have "real r / real b \<le> 1 / 2"
    proof -
      have "real (2 * r) < real b" using lt by (simp only: of_nat_less_iff)
      then show ?thesis using bpos by (simp add: field_simps)
    qed
    ultimately show ?thesis unfolding frac using r0 by simp
  next
    case gt
    then have "rne_div a b = q + 1" unfolding rne_div_def q_def r_def by (simp add: Let_def)
    moreover have "1 / 2 \<le> real r / real b"
    proof -
      have "real b < real (2 * r)" using gt by (simp only: of_nat_less_iff)
      then show ?thesis using bpos by (simp add: field_simps)
    qed
    ultimately show ?thesis unfolding frac using r1 by simp
  next
    case eq
    then have h: "real r / real b = 1 / 2"
    proof -
      have "real (2 * r) = real b" using eq by simp
      then show ?thesis using bpos by (simp add: field_simps)
    qed
    have "rne_div a b = q \<or> rne_div a b = q + 1"
      unfolding rne_div_def q_def r_def by (simp add: Let_def)
    then show ?thesis unfolding frac h by auto
  qed
qed


lemma powi2_mono: "i \<le> j \<Longrightarrow> (2::real) powi i \<le> 2 powi j"
  by (rule power_int_increasing) simp_all

lemma powi2_less_exp: "(2::real) powi i < 2 powi j \<Longrightarrow> i < j"
proof (rule ccontr)
  assume l: "(2::real) powi i < 2 powi j" and "\<not> i < j"
  then have "(2::real) powi j \<le> 2 powi i" by (intro powi2_mono) simp
  with l show False by simp
qed

lemma powi2_half: "(2::real) powi i / 2 = 2 powi (i - 1)"
proof -
  have "(2::real) powi (i - 1) * 2 powi 1 = 2 powi i"
    using powi2_add [of "i - 1" 1] by simp
  then show ?thesis by simp
qed

lemma round_core:
  fixes k :: int
  assumes a: "0 < a" and b: "0 < b"
  defines "v \<equiv> real a / real b * 2 powi k"
  defines "E \<equiv> max (floor_log2 a b + k - 23) (- 149)"
  defines "m \<equiv> (if E \<le> k then rne_div (a * 2 ^ nat (k - E)) b else rne_div a (b * 2 ^ nat (E - k)))"
  shows "\<bar>real m * 2 powi E - v\<bar> \<le> 2 powi (E - 1)" and "m \<le> 2 ^ 24"
proof -
  define L where "L = floor_log2 a b"
  have Lb: "2 powi L \<le> real a / real b" "real a / real b < 2 powi (L + 1)"
    unfolding L_def using floor_log2_bounds [OF a b] by auto
  define w where "w = v * 2 powi (- E)"
  have wv: "w * 2 powi E = v"
    unfolding w_def using powi2_add [of "- E" E] by (simp add: mult.assoc)
  have mw: "\<bar>real m - w\<bar> \<le> 1 / 2"
  proof (cases "E \<le> k")
    case True
    have "real (a * 2 ^ nat (k - E)) / real b = real a / real b * 2 powi (k - E)"
      using True by (simp add: power_int_nonneg_exp)
    also have "\<dots> = real a / real b * (2 powi k * 2 powi (- E))"
      using powi2_add [of k "- E"] by simp
    also have "\<dots> = w" unfolding w_def v_def by simp
    finally have "real (a * 2 ^ nat (k - E)) / real b = w" .
    then show ?thesis
      using rne_div_bound [OF b, of "a * 2 ^ nat (k - E)"] True unfolding m_def by simp
  next
    case False
    then have pos: "0 < b * 2 ^ nat (E - k)" using b by simp
    have p: "(2::real) powi (k - E) * 2 ^ nat (E - k) = 1"
    proof -
      have "(2::real) ^ nat (E - k) = 2 powi (E - k)" using False by (simp add: power_int_nonneg_exp)
      then show ?thesis using powi2_add [of "k - E" "E - k"] by simp
    qed
    have "real a / real (b * 2 ^ nat (E - k)) = real a / real b * (1 / 2 ^ nat (E - k))"
      by simp
    also have "1 / (2::real) ^ nat (E - k) = 2 powi (k - E)"
      using p by (simp add: field_simps)
    also have "real a / real b * 2 powi (k - E) = real a / real b * (2 powi k * 2 powi (- E))"
      using powi2_add [of k "- E"] by simp
    also have "\<dots> = w" unfolding w_def v_def by simp
    finally have "real a / real (b * 2 ^ nat (E - k)) = w" .
    then show ?thesis
      using rne_div_bound [OF pos, of a] False unfolding m_def by simp
  qed
  have "real m * 2 powi E - v = (real m - w) * 2 powi E"
    using wv by (simp add: algebra_simps)
  then have "\<bar>real m * 2 powi E - v\<bar> = \<bar>real m - w\<bar> * 2 powi E"
    by (simp add: abs_mult)
  also have "\<dots> \<le> 1 / 2 * 2 powi E"
    using mw by (intro mult_right_mono) simp_all
  also have "\<dots> = 2 powi (E - 1)"
    using powi2_half [of E] by simp
  finally show "\<bar>real m * 2 powi E - v\<bar> \<le> 2 powi (E - 1)" .
  have "v < 2 powi (L + 1) * 2 powi k"
    unfolding v_def using Lb(2) by (intro mult_strict_right_mono) simp_all
  also have "\<dots> = 2 powi (L + 1 + k)" by (rule powi2_add)
  finally have vU: "v < 2 powi (L + 1 + k)" .
  have "w < 2 powi (L + 1 + k) * 2 powi (- E)"
    unfolding w_def using vU by (intro mult_strict_right_mono) simp_all
  also have "\<dots> = 2 powi (L + 1 + k - E)"
    using powi2_add [of "L + 1 + k" "- E"] by simp
  also have "\<dots> \<le> 2 powi 24"
    by (rule powi2_mono) (simp add: E_def L_def)
  finally have "w < 2 ^ 24" by simp
  then have "real m < 2 ^ 24 + 1" using mw by linarith
  then have "real m < real (2 ^ 24 + 1)" by simp
  then have "m < 2 ^ 24 + 1" by (simp only: of_nat_less_iff)
  then show "m \<le> 2 ^ 24" by simp
qed


lemma round_bound:
  fixes k :: int
  assumes a: "0 < a" and b: "0 < b"
    and v: "real a / real b * 2 powi k < 2 powi U"
    and U: "- 125 \<le> U" "U \<le> 127"
  shows "is_finite (round_to_float32 s a b k)"
    and "fsign (round_to_float32 s a b k) = s"
    and "\<bar>mag (round_to_float32 s a b k) - real a / real b * 2 powi k\<bar> \<le> 2 powi (U - 25)"
    and "fexp (round_to_float32 s a b k) < U - 23 \<or> mag (round_to_float32 s a b k) = 2 powi U"
proof -
  define E where "E = max (floor_log2 a b + k - 23) (- 149)"
  define m where "m = (if E \<le> k then rne_div (a * 2 ^ nat (k - E)) b else rne_div a (b * 2 ^ nat (E - k)))"
  define m' where "m' = (if m = 2 ^ 24 then 2 ^ 23 else m)"
  define e' where "e' = (if m = 2 ^ 24 then E + 1 else E)"
  let ?v = "real a / real b * 2 powi k"
  have err: "\<bar>real m * 2 powi E - ?v\<bar> \<le> 2 powi (E - 1)" and m24: "m \<le> 2 ^ 24"
    using round_core [OF a b, of k] unfolding E_def m_def by auto
  have vlo: "2 powi (floor_log2 a b + k) \<le> ?v"
  proof -
    have "2 powi (floor_log2 a b) * 2 powi k \<le> ?v"
      using floor_log2_bounds(1) [OF a b] by (intro mult_right_mono) simp_all
    then show ?thesis by (simp only: powi2_add)
  qed
  have "(2::real) powi (floor_log2 a b + k) < 2 powi U" using vlo v by linarith
  then have "floor_log2 a b + k < U" by (rule powi2_less_exp)
  then have EU: "E \<le> U - 24" unfolding E_def using U by simp
  have val: "real m' * 2 powi e' = real m * 2 powi E"
  proof (cases "m = 2 ^ 24")
    case True
    have "(2::real) powi (E + 1) = 2 powi E * 2" using powi2_add [of E 1] by simp
    then show ?thesis unfolding m'_def e'_def using True by simp
  next
    case False
    then show ?thesis unfolding m'_def e'_def by simp
  qed
  have e'U: "e' \<le> U - 23" unfolding e'_def using EU by simp
  have r: "round_to_float32 s a b k = FFinite s m' e'"
    unfolding round_to_float32_def Let_def using a e'U U
    unfolding E_def [symmetric] m_def [symmetric] m'_def [symmetric] e'_def [symmetric]
    by simp
  show "is_finite (round_to_float32 s a b k)" unfolding r by simp
  show "fsign (round_to_float32 s a b k) = s" unfolding r by simp
  have "2 powi (E - 1) \<le> (2::real) powi (U - 25)" using EU by (intro powi2_mono) simp
  then show "\<bar>mag (round_to_float32 s a b k) - ?v\<bar> \<le> 2 powi (U - 25)"
    unfolding r using err val by simp
  show "fexp (round_to_float32 s a b k) < U - 23 \<or> mag (round_to_float32 s a b k) = 2 powi U"
  proof (cases "e' < U - 23")
    case True
    then show ?thesis unfolding r by simp
  next
    case False
    then have eq: "e' = U - 23" using e'U by simp
    then have c: "m = 2 ^ 24" and EE: "E = U - 24"
      using EU unfolding e'_def by (auto split: if_splits)
    have "real m * 2 powi E = 2 powi 24 * 2 powi (U - 24)" unfolding c EE by simp
    also have "\<dots> = 2 powi U" using powi2_add [of 24 "U - 24"] by simp
    finally show ?thesis unfolding r using val by simp
  qed
qed

lemma round_zero: "round_to_float32 s 0 b k = FFinite s 0 (- 149)"
  by (simp add: round_to_float32_def)

lemma rne_div_1 [simp]: "rne_div a (Suc 0) = a"
  by (simp add: rne_div_def)

lemma round_nat_exact:
  assumes n: "0 < n" "n < 2 ^ 24"
  shows "\<exists>m e. round_to_float32 s n 1 0 = FFinite s m e \<and> 0 < m \<and> real m * 2 powi e = real n"
proof -
  define L where "L = floor_log2 n 1"
  have one: "(0::nat) < 1" by simp
  have Lb: "2 powi L \<le> real n" "real n < 2 powi (L + 1)"
    unfolding L_def using floor_log2_bounds [OF n(1) one] by auto
  have "real n < real (2 ^ 24)" using n(2) by (simp only: of_nat_less_iff)
  then have "real n < 2 powi 24" by simp
  then have "(2::real) powi L < 2 powi 24" using Lb(1) by linarith
  then have L24: "L < 24" by (rule powi2_less_exp)
  have "1 \<le> real n" using n(1) by simp
  then have "(2::real) powi 0 < 2 powi (L + 1)" using Lb(2) by simp
  then have L0: "0 \<le> L" using powi2_less_exp [of 0 "L + 1"] by simp
  define j where "j = nat (23 - L)"
  have E: "max (L + 0 - 23) (- 149) = L - 23" using L0 by simp
  have jE: "nat (0 - (L - 23)) = j" unfolding j_def by simp
  have pj: "(2::real) powi (L - 23) * 2 ^ j = 1"
  proof -
    have "(2::real) ^ j = 2 powi (23 - L)" unfolding j_def using L24 by (simp add: power_int_nonneg_exp)
    then show ?thesis using powi2_add [of "L - 23" "23 - L"] by simp
  qed
  have "real (n * 2 ^ j) < 2 powi (L + 1) * 2 ^ j"
    using Lb(2) by simp
  also have "\<dots> = 2 powi 24 * (2 powi (L - 23) * 2 ^ j)"
  proof -
    have ex: "24 + (L - 23) = L + 1" by simp
    have "(2::real) powi (L + 1) = 2 powi 24 * 2 powi (L - 23)"
      using powi2_add [of 24 "L - 23"] unfolding ex by simp
    then show ?thesis by (simp only: mult.assoc)
  qed
  also have "\<dots> = real (2 ^ 24)" unfolding pj by simp
  finally have "n * 2 ^ j < 2 ^ 24" by (simp only: of_nat_less_iff)
  then have ne: "n * 2 ^ j \<noteq> 2 ^ 24" by simp
  have r: "round_to_float32 s n 1 0 = FFinite s (n * 2 ^ j) (L - 23)"
    unfolding round_to_float32_def Let_def L_def [symmetric] E jE
    using n(1) L24 ne by simp
  have "real (n * 2 ^ j) * 2 powi (L - 23) = real n * (2 powi (L - 23) * 2 ^ j)"
    by (simp add: mult.commute mult.left_commute)
  also have "\<dots> = real n" unfolding pj by simp
  finally have v: "real (n * 2 ^ j) * 2 powi (L - 23) = real n" .
  show ?thesis
    using r v n(1) by (intro exI [of _ "n * 2 ^ j"] exI [of _ "L - 23"]) simp
qed

lemma round_half_away:
  assumes d: "0 < d"
  shows "(if d \<le> 2 * (m mod d) then m div d + 1 else m div d) = nat \<lfloor>real m / real d + 1 / 2\<rfloor>"
proof -
  define q where "q = m div d"
  define r where "r = m mod d"
  have mm: "m = q * d + r" unfolding q_def r_def by simp
  have rd: "r < d" unfolding r_def using d by simp
  have dpos: "0 < real d" using d by simp
  have frac: "real m / real d = real q + real r / real d"
    unfolding mm using dpos by (simp add: field_simps)
  have r1: "real r / real d < 1" using rd dpos by simp
  have r0: "0 \<le> real r / real d" by simp
  show ?thesis
  proof (cases "d \<le> 2 * r")
    case True
    then have "real d \<le> real (2 * r)" by (simp only: of_nat_le_iff)
    then have h: "1 / 2 \<le> real r / real d" using dpos by (simp add: field_simps)
    have c1: "real_of_int (int (q + 1)) = real q + 1" by simp
    have "\<lfloor>real m / real d + 1 / 2\<rfloor> = int (q + 1)"
      unfolding frac
    proof (rule floor_unique)
      show "real_of_int (int (q + 1)) \<le> real q + real r / real d + 1 / 2"
        unfolding c1 using h by linarith
      show "real q + real r / real d + 1 / 2 < real_of_int (int (q + 1)) + 1"
        unfolding c1 using r1 by linarith
    qed
    then show ?thesis using True unfolding q_def [symmetric] r_def [symmetric] by simp
  next
    case False
    then have "real (2 * r) < real d" by (simp only: of_nat_less_iff not_le)
    then have h: "real r / real d < 1 / 2" using dpos by (simp add: field_simps)
    have c1: "real_of_int (int q) = real q" by simp
    have "\<lfloor>real m / real d + 1 / 2\<rfloor> = int q"
      unfolding frac
    proof (rule floor_unique)
      show "real_of_int (int q) \<le> real q + real r / real d + 1 / 2"
        unfolding c1 using r0 by linarith
      show "real q + real r / real d + 1 / 2 < real_of_int (int q) + 1"
        unfolding c1 using h by linarith
    qed
    then show ?thesis using False unfolding q_def [symmetric] r_def [symmetric] by simp
  qed
qed

lemma roundf_small:
  assumes "is_finite p" and "fexp p < 0"
  shows "roundf p = round_to_float32 (fsign p) (nat \<lfloor>mag p + 1 / 2\<rfloor>) 1 0"
proof -
  obtain s m e where p: "p = FFinite s m e" using assms(1) by (cases p) auto
  have e: "e < 0" using assms(2) unfolding p by simp
  define d :: nat where "d = 2 ^ nat (- e)"
  have d: "0 < d" unfolding d_def by simp
  have "(2::real) powi e * 2 powi (- e) = 1" using powi2_add [of e "- e"] by simp
  moreover have "(2::real) powi (- e) = real d"
    unfolding d_def using e by (simp add: power_int_nonneg_exp)
  ultimately have "(2::real) powi e * real d = 1" by simp
  then have "(2::real) powi e = 1 / real d" using d by (simp add: field_simps)
  then have mg: "mag p = real m / real d" unfolding p by simp
  show ?thesis
    unfolding p using e round_half_away [OF d, of m] mg [unfolded p]
    by (simp add: Let_def d_def [symmetric])
qed

lemmas float_eval = float_of_int_def round_to_float32_def floor_log2_def rne_div_def
  bitlen.simps Let_def

lemma M_eq: "float_of_int 1000000 = FFinite False 16000000 (- 4)"
  by (simp add: float_eval)

lemma mag_nonneg: "0 \<le> mag x"
  by (cases x) simp_all

lemma nat_floor_half:
  assumes "0 \<le> u"
  shows "real (nat \<lfloor>u + 1 / 2\<rfloor>) \<le> u + 1 / 2" and "u + 1 / 2 < real (nat \<lfloor>u + 1 / 2\<rfloor>) + 1"
proof -
  have nn: "0 \<le> \<lfloor>u + 1 / 2\<rfloor>" using assms by simp
  have c: "real (nat \<lfloor>u + 1 / 2\<rfloor>) = real_of_int \<lfloor>u + 1 / 2\<rfloor>"
    using nn by simp
  show "real (nat \<lfloor>u + 1 / 2\<rfloor>) \<le> u + 1 / 2" unfolding c by (rule of_int_floor_le)
  show "u + 1 / 2 < real (nat \<lfloor>u + 1 / 2\<rfloor>) + 1" unfolding c by linarith
qed

lemma fmul_M:
  assumes fin: "is_finite x" and bound: "mag x \<le> 8"
  shows "is_finite (fmul x (float_of_int 1000000))"
    and "fsign (fmul x (float_of_int 1000000)) = fsign x"
    and "fexp (fmul x (float_of_int 1000000)) < 0"
    and "\<bar>mag (fmul x (float_of_int 1000000)) - mag x * 1000000\<bar> \<le> 1 / 4"
proof -
  obtain s m e where x: "x = FFinite s m e" using fin by (cases x) auto
  let ?p = "fmul x (float_of_int 1000000)"
  have p: "?p = round_to_float32 s (m * 16000000) 1 (e + - 4)"
    unfolding x M_eq by simp
  have "is_finite ?p \<and> fsign ?p = fsign x \<and> fexp ?p < 0 \<and> \<bar>mag ?p - mag x * 1000000\<bar> \<le> 1 / 4"
  proof (cases "m = 0")
    case True
    then show ?thesis unfolding p by (simp add: round_zero x)
  next
    case False
    then have a: "0 < m * 16000000" by simp
    have one: "(0::nat) < 1" by simp
    have v: "real (m * 16000000) / real 1 * 2 powi (e + - 4) = mag x * 1000000"
    proof -
      have "(2::real) powi (e + - 4) = 2 powi e * 2 powi (- 4)" by (simp only: powi2_add)
      also have "(2::real) powi (- 4) = 1 / 16" by (simp add: power_int_minus_divide)
      finally show ?thesis unfolding x by simp
    qed
    have lt: "real (m * 16000000) / real 1 * 2 powi (e + - 4) < 2 powi 23"
      unfolding v using bound by simp
    have U: "- 125 \<le> (23::int)" "(23::int) \<le> 127" by simp_all
    note R = round_bound [OF a one lt U, of s, unfolded v, folded p]
    have q: "(2::real) powi (23 - 25) = 1 / 4" by (simp add: power_int_minus_divide)
    have err: "\<bar>mag ?p - mag x * 1000000\<bar> \<le> 1 / 4" using R(3) unfolding q .
    have "mag ?p \<noteq> 2 powi 23" using err bound by auto
    then have "fexp ?p < 0" using R(4) by simp
    then show ?thesis using R(1,2) err by (simp add: x)
  qed
  then show "is_finite ?p" "fsign ?p = fsign x" "fexp ?p < 0" "\<bar>mag ?p - mag x * 1000000\<bar> \<le> 1 / 4"
    by simp_all
qed

lemma quantize_qint:
  assumes fin: "is_finite x" and bound: "mag x \<le> 8"
  shows "quantize x = fdiv (round_to_float32 (fsign x) (qint x) 1 0) (float_of_int 1000000)"
    and "qint x \<le> 8000000"
    and "\<bar>real (qint x) - mag x * 1000000\<bar> \<le> 3 / 4"
proof -
  let ?p = "fmul x (float_of_int 1000000)"
  note P = fmul_M [OF fin bound]
  show "quantize x = fdiv (round_to_float32 (fsign x) (qint x) 1 0) (float_of_int 1000000)"
    unfolding quantize_def qint_def using roundf_small [OF P(1) P(3)] P(2) by simp
  note H = nat_floor_half [OF mag_nonneg [of ?p], folded qint_def]
  show "\<bar>real (qint x) - mag x * 1000000\<bar> \<le> 3 / 4"
    using H P(4) by linarith
  have "real (qint x) < 8000001"
    using H(1) P(4) bound by linarith
  then have "real (qint x) < real (8000001::nat)" by simp
  then have "qint x < 8000001" by (simp only: of_nat_less_iff)
  then show "qint x \<le> 8000000" by simp
qed

lemma fdiv_M:
  fixes s :: bool
  assumes n: "n \<le> 8000000"
  defines "y \<equiv> fdiv (round_to_float32 s n 1 0) (float_of_int 1000000)"
  shows "is_finite y" and "fsign y = s"
    and "\<bar>mag y - real n / 1000000\<bar> \<le> 2 powi (- 22)"
    and "n < 8000000 \<Longrightarrow> mag y < 8"
    and "n = 8000000 \<Longrightarrow> y = FFinite s 8388608 (- 20)"
proof -
  have e22: "(2::real) powi (- 22) = 1 / 4194304" by (simp add: power_int_minus_divide)
  have "is_finite y \<and> fsign y = s \<and> \<bar>mag y - real n / 1000000\<bar> \<le> 2 powi (- 22) \<and>
        (n < 8000000 \<longrightarrow> mag y < 8) \<and> (n = 8000000 \<longrightarrow> y = FFinite s 8388608 (- 20))"
  proof -
    consider (zero) "n = 0" | (top) "n = 8000000" | (mid) "0 < n" "n < 8000000"
      using n by linarith
    then show ?thesis
    proof cases
      case zero
      have "y = FFinite s 0 (- 149)"
        unfolding y_def zero M_eq by (simp add: round_zero)
      then show ?thesis using zero by simp
    next
      case top
      have yy: "y = FFinite s 8388608 (- 20)"
        unfolding y_def top M_eq by (simp add: float_eval)
      have "mag y = 8" unfolding yy by (simp add: power_int_minus_divide)
      then show ?thesis using top yy by simp
    next
      case mid
      have n24: "n < 2 ^ 24" using mid(2) by simp
      obtain m e where r: "round_to_float32 s n 1 0 = FFinite s m e"
        and m: "0 < m" and v: "real m * 2 powi e = real n"
        using round_nat_exact [OF mid(1) n24, of s] by blast
      have yr: "y = round_to_float32 s m 16000000 (e - - 4)"
        unfolding y_def r M_eq by simp
      have b: "(0::nat) < 16000000" by simp
      have ex: "real m / real 16000000 * 2 powi (e - - 4) = real n / 1000000"
      proof -
        have "(2::real) powi (e - - 4) = 2 powi e * 2 powi 4"
          using powi2_add [of e 4] by simp
        then have "real m / real 16000000 * 2 powi (e - - 4) = (real m * 2 powi e) * 16 / 16000000"
          by simp
        then show ?thesis unfolding v by simp
      qed
      have "n \<le> 7999999" using mid(2) by simp
      then have "real n \<le> real (7999999::nat)" by (simp only: of_nat_le_iff)
      then have n7: "real n \<le> 7999999" by simp
      have lt: "real m / real 16000000 * 2 powi (e - - 4) < 2 powi 3"
        unfolding ex using n7 by simp
      have U: "- 125 \<le> (3::int)" "(3::int) \<le> 127" by simp_all
      note R = round_bound [OF m b lt U, of s, unfolded ex, folded yr]
      have err: "\<bar>mag y - real n / 1000000\<bar> \<le> 2 powi (- 22)" using R(3) by simp
      have "mag y < 8" using err n7 unfolding e22 by linarith
      then show ?thesis using R(1,2) err mid by simp
    qed
  qed
  then show "is_finite y" "fsign y = s" "\<bar>mag y - real n / 1000000\<bar> \<le> 2 powi (- 22)"
    "n < 8000000 \<Longrightarrow> mag y < 8" "n = 8000000 \<Longrightarrow> y = FFinite s 8388608 (- 20)"
    by simp_all
qed

lemma quantize_eight: "quantize (FFinite s 8388608 (- 20)) = FFinite s 8388608 (- 20)"
  by (simp add: quantize_def float_eval)

lemma quantize_idem_finite:
  assumes fin: "is_finite x" and bound: "mag x \<le> 8"
  shows "quantize (quantize x) = quantize x"
proof -
  define n where "n = qint x"
  define s where "s = fsign x"
  define y where "y = quantize x"
  note Q = quantize_qint [OF fin bound, folded n_def s_def y_def]
  note D = fdiv_M [OF Q(2), of s, folded Q(1)]
  show ?thesis
  proof (cases "n = 8000000")
    case True
    then have "y = FFinite s 8388608 (- 20)" by (rule D(5))
    then show ?thesis unfolding y_def [symmetric] by (simp add: quantize_eight)
  next
    case False
    then have nlt: "n < 8000000" using Q(2) by simp
    have yb: "mag y \<le> 8" using D(4) [OF nlt] by simp
    note P = fmul_M [OF D(1) yb]
    note Q' = quantize_qint [OF D(1) yb]
    have e22: "(2::real) powi (- 22) = 1 / 4194304" by (simp add: power_int_minus_divide)
    let ?u = "mag (fmul y (float_of_int 1000000))"
    have d1: "\<bar>mag y * 1000000 - real n\<bar> \<le> 1000000 / 4194304"
      using D(3) unfolding e22 by linarith
    have close: "\<bar>?u - real n\<bar> < 1 / 2" using P(4) d1 by linarith
    have c1: "real_of_int (int n) = real n" by simp
    have "\<lfloor>?u + 1 / 2\<rfloor> = int n"
    proof (rule floor_unique)
      show "real_of_int (int n) \<le> ?u + 1 / 2" unfolding c1 using close by linarith
      show "?u + 1 / 2 < real_of_int (int n) + 1" unfolding c1 using close by linarith
    qed
    then have qn: "qint y = n" unfolding qint_def by simp
    have "quantize y = fdiv (round_to_float32 s n 1 0) (float_of_int 1000000)"
      using Q'(1) unfolding qn D(2) .
    also have "\<dots> = y" using Q(1) by simp
    finally show ?thesis unfolding y_def .
  qed
qed

lemma quantize_not_finite: "\<not> is_finite x \<Longrightarrow> quantize x = x"
  by (cases x) (simp_all add: quantize_def M_eq)

lemma abs_valof: "\<bar>valof x\<bar> = mag x"
  by (cases x) (simp_all add: abs_mult)
















text \<open>
  Claim C6, as the code has it. Quantizing a second time gives the same value for every
  float that is infinite or not a number and for every finite float of magnitude at most 8
  (the values of the measured fields are of this size). Above 8 the spacing of the
  floats is wider than \<open>10^-6\<close> and the claim fails.
\<close>

theorem quantize_idempotent:
  assumes "is_finite x \<longrightarrow> \<bar>valof x\<bar> \<le> 8"
  shows "quantize (quantize x) = quantize x"
proof (cases "is_finite x")
  case True
  then have "mag x \<le> 8" using assms unfolding abs_valof by simp
  then show ?thesis using True by (rule quantize_idem_finite [rotated])
next
  case False
  then show ?thesis by (simp add: quantize_not_finite)
qed

text \<open>The value \<open>0.1f\<close>: it is stored as itself, and so again.\<close>

theorem quantize_idempotent_witness:
  "is_finite (FFinite False 13421773 (- 27)) \<and>
   \<bar>valof (FFinite False 13421773 (- 27))\<bar> \<le> 8 \<and>
   quantize (quantize (FFinite False 13421773 (- 27))) = quantize (FFinite False 13421773 (- 27))"
proof -
  have bound: "is_finite (FFinite False 13421773 (- 27)) \<longrightarrow> \<bar>valof (FFinite False 13421773 (- 27))\<bar> \<le> 8"
    by (simp add: power_int_minus_divide)
  from quantize_idempotent [OF bound] show ?thesis
    using bound by simp
qed

text \<open>
  The float \<open>8388620 * 2^-20\<close>, about \<open>8.0000114\<close>: quantized once it is \<open>8388621 * 2^-20\<close>,
  quantized twice it is \<open>8388622 * 2^-20\<close>.
\<close>

theorem quantize_twice_differs:
  "is_float32 (FFinite False 8388620 (- 20)) \<and>
   quantize (FFinite False 8388620 (- 20)) = FFinite False 8388621 (- 20) \<and>
   quantize (quantize (FFinite False 8388620 (- 20))) = FFinite False 8388622 (- 20) \<and>
   quantize (quantize (FFinite False 8388620 (- 20))) \<noteq> quantize (FFinite False 8388620 (- 20))"
proof -
  have q1: "quantize (FFinite False 8388620 (- 20)) = FFinite False 8388621 (- 20)"
    by (simp add: quantize_def float_eval)
  have q2: "quantize (FFinite False 8388621 (- 20)) = FFinite False 8388622 (- 20)"
    by (simp add: quantize_def float_eval)
  show ?thesis unfolding q1 q2 by simp
qed

end
